theory Spec2Isabelle
  imports Complex_Main "HOL-Library.Word"
begin

unbundle bit_operations_syntax

section \<open>Board (types.ts)\<close>

datatype Stone = NONE | BLACK | WHITE

datatype Color = black | white

record Board =
  stones :: "Stone list list"
  width :: int
  height :: int

definition isValidPosition :: "Board \<Rightarrow> int \<Rightarrow> int \<Rightarrow> bool" where
  "isValidPosition b row col \<longleftrightarrow> row \<ge> 0 \<and> row < height b \<and> col \<ge> 0 \<and> col < width b"

definition getStone :: "Board \<Rightarrow> int \<Rightarrow> int \<Rightarrow> Stone" where
  "getStone b row col =
     (if row < 0 \<or> row \<ge> height b \<or> col < 0 \<or> col \<ge> width b then NONE
      else stones b ! nat row ! nat col)"

definition setStone :: "Board \<Rightarrow> int \<Rightarrow> int \<Rightarrow> Stone \<Rightarrow> Board" where
  "setStone b row col stone =
     (if row \<ge> 0 \<and> row < height b \<and> col \<ge> 0 \<and> col < width b
      then b\<lparr>stones := (stones b)[nat row := (stones b ! nat row)[nat col := stone]]\<rparr>
      else b)"

definition isEmpty :: "Board \<Rightarrow> int \<Rightarrow> int \<Rightarrow> bool" where
  "isEmpty b row col \<longleftrightarrow> getStone b row col = NONE"

text \<open>The constructor's result for dimensions the array allocation accepts.\<close>

definition emptyBoard :: "int \<Rightarrow> int \<Rightarrow> Board" where
  "emptyBoard w h = \<lparr>stones = replicate (nat h) (replicate (nat w) NONE), width = w, height = h\<rparr>"

text \<open>Shape of a constructed board: \<open>height\<close> rows of \<open>width\<close> cells each.\<close>

definition wf_board :: "Board \<Rightarrow> bool" where
  "wf_board b \<longleftrightarrow> length (stones b) = nat (height b) \<and> list_all (\<lambda>r. length r = nat (width b)) (stones b)"

definition directions :: "(int \<times> int) list" where
  "directions = [(-1, 0), (1, 0), (0, -1), (0, 1)]"

type_synonym pos = "int \<times> int"

text \<open>The in-bounds cells of a board (used as the termination measure of the traversals).\<close>

definition cells :: "Board \<Rightarrow> pos set" where
  "cells b = {p. isValidPosition b (fst p) (snd p)}"

lemma wf_emptyBoard: "wf_board (emptyBoard w h)"
  by (simp add: wf_board_def emptyBoard_def list_all_length)

lemma cells_alt: "cells b = {0..<height b} \<times> {0..<width b}"
  by (auto simp: cells_def isValidPosition_def)

lemma finite_cells: "finite (cells b)"
  by (simp add: cells_alt)

lemma cells_card_less:
  assumes "insert p V \<subseteq> V'" "p \<notin> V" "p \<in> cells b"
  shows "card (cells b - V') < card (cells b - V)"
proof (rule psubset_card_mono)
  show "finite (cells b - V)" by (simp add: finite_cells)
  show "cells b - V' \<subset> cells b - V" using assms by auto
qed

section \<open>Group and liberty counting (npcAI.ts)\<close>

text \<open>
  \<open>floodFillLiberties\<close> is recursive and mutates two sets of keys \<open>"row,col"\<close>; the model
  passes the pair (visited, liberties) through the four recursive calls in the order of
  \<open>directions\<close>: up, down, left, right.
\<close>

function floodFillLiberties ::
  "Board \<Rightarrow> int \<Rightarrow> int \<Rightarrow> Stone \<Rightarrow> pos set \<times> pos set \<Rightarrow> pos set \<times> pos set" where
  "floodFillLiberties b row col stone (visited, liberties) =
     (if (row, col) \<in> visited \<or> \<not> isValidPosition b row col then (visited, liberties)
      else if getStone b row col = NONE then (insert (row, col) visited, insert (row, col) liberties)
      else if getStone b row col \<noteq> stone then (insert (row, col) visited, liberties)
      else floodFillLiberties b row (col + 1) stone
            (floodFillLiberties b row (col - 1) stone
              (floodFillLiberties b (row + 1) col stone
                (floodFillLiberties b (row - 1) col stone (insert (row, col) visited, liberties)))))"
  by pat_completeness auto

lemma floodFillLiberties_dom_mono:
  "floodFillLiberties_dom (b, row, col, stone, vl) \<Longrightarrow>
   fst vl \<subseteq> fst (floodFillLiberties b row col stone vl)"
proof (induction b row col stone vl rule: floodFillLiberties.pinduct)
  case (1 b row col stone visited liberties)
  then show ?case
    by (simp add: floodFillLiberties.psimps) auto
qed

termination floodFillLiberties
proof (relation "measure (\<lambda>(b, row, col, stone, vl). card (cells b - fst vl))", goal_cases)
  case 1
  then show ?case by simp
next
  case (2 b row col stone visited liberties)
  then have "card (cells b - insert (row, col) visited) < card (cells b - visited)"
    by (intro cells_card_less[of "(row, col)"]) (auto simp: cells_def)
  then show ?case by simp
next
  case (3 b row col stone visited liberties)
  then have "card (cells b - fst (floodFillLiberties b (row - 1) col stone
               (insert (row, col) visited, liberties)))
           < card (cells b - visited)"
    using floodFillLiberties_dom_mono[OF 3(4)]
    by (intro cells_card_less[of "(row, col)"]) (auto simp: cells_def)
  then show ?case by simp
next
  case (4 b row col stone visited liberties)
  then have "card (cells b - fst (floodFillLiberties b (row + 1) col stone
               (floodFillLiberties b (row - 1) col stone (insert (row, col) visited, liberties))))
           < card (cells b - visited)"
    using floodFillLiberties_dom_mono[OF 4(4)] floodFillLiberties_dom_mono[OF 4(5)]
    by (intro cells_card_less[of "(row, col)"]) (auto simp: cells_def)
  then show ?case by simp
next
  case (5 b row col stone visited liberties)
  then have "card (cells b - fst (floodFillLiberties b row (col - 1) stone
               (floodFillLiberties b (row + 1) col stone
                 (floodFillLiberties b (row - 1) col stone (insert (row, col) visited, liberties)))))
           < card (cells b - visited)"
    using floodFillLiberties_dom_mono[OF 5(4)] floodFillLiberties_dom_mono[OF 5(5)]
      floodFillLiberties_dom_mono[OF 5(6)]
    by (intro cells_card_less[of "(row, col)"]) (auto simp: cells_def)
  then show ?case by simp
qed

declare floodFillLiberties.simps [simp del]

definition countLiberties :: "Board \<Rightarrow> int \<Rightarrow> int \<Rightarrow> Stone \<Rightarrow> nat" where
  "countLiberties b row col stone = card (snd (floodFillLiberties b row col stone ({}, {})))"

text \<open>
  \<open>floodFillGroup\<close> returns the size it counted and mutates \<open>visited\<close>; the model returns
  both.
\<close>

function floodFillGroup :: "Board \<Rightarrow> int \<Rightarrow> int \<Rightarrow> Stone \<Rightarrow> pos set \<Rightarrow> nat \<times> pos set" where
  "floodFillGroup b row col stone visited =
     (if (row, col) \<in> visited \<or> \<not> isValidPosition b row col \<or> getStone b row col \<noteq> stone
      then (0, visited)
      else
        let r1 = floodFillGroup b (row - 1) col stone (insert (row, col) visited);
            r2 = floodFillGroup b (row + 1) col stone (snd r1);
            r3 = floodFillGroup b row (col - 1) stone (snd r2);
            r4 = floodFillGroup b row (col + 1) stone (snd r3)
        in (1 + fst r1 + fst r2 + fst r3 + fst r4, snd r4))"
  by pat_completeness auto

lemma floodFillGroup_dom_mono:
  "floodFillGroup_dom (b, row, col, stone, visited) \<Longrightarrow>
   visited \<subseteq> snd (floodFillGroup b row col stone visited)"
proof (induction b row col stone visited rule: floodFillGroup.pinduct)
  case (1 b row col stone visited)
  show ?case
  proof (cases "(row, col) \<in> visited \<or> \<not> isValidPosition b row col \<or> getStone b row col \<noteq> stone")
    case True
    then show ?thesis using 1(1) by (simp add: floodFillGroup.psimps)
  next
    case False
    note ih1 = 1(2)[OF False]
    note ih2 = 1(3)[OF False refl]
    note ih3 = 1(4)[OF False refl refl]
    note ih4 = 1(5)[OF False refl refl refl]
    from ih1 ih2 ih3 ih4 False show ?thesis
      using 1(1) by (simp add: floodFillGroup.psimps Let_def) blast
  qed
qed

termination floodFillGroup
proof (relation "measure (\<lambda>(b, row, col, stone, visited). card (cells b - visited))", goal_cases)
  case 1
  then show ?case by simp
next
  case (2 b row col stone visited)
  then have "card (cells b - insert (row, col) visited) < card (cells b - visited)"
    by (intro cells_card_less[of "(row, col)"]) (auto simp: cells_def)
  then show ?case by simp
next
  case (3 b row col stone visited r1)
  then have "card (cells b - snd r1) < card (cells b - visited)"
    using floodFillGroup_dom_mono[of b "row - 1" col stone "insert (row, col) visited"]
    by (intro cells_card_less[of "(row, col)"]) (auto simp: cells_def)
  then show ?case by simp
next
  case (4 b row col stone visited r1 r2)
  then have "card (cells b - snd r2) < card (cells b - visited)"
    using floodFillGroup_dom_mono[of b "row - 1" col stone "insert (row, col) visited"]
      floodFillGroup_dom_mono[of b "row + 1" col stone "snd r1"]
    by (intro cells_card_less[of "(row, col)"]) (auto simp: cells_def)
  then show ?case by simp
next
  case (5 b row col stone visited r1 r2 r3)
  then have "card (cells b - snd r3) < card (cells b - visited)"
    using floodFillGroup_dom_mono[of b "row - 1" col stone "insert (row, col) visited"]
      floodFillGroup_dom_mono[of b "row + 1" col stone "snd r1"]
      floodFillGroup_dom_mono[of b row "col - 1" stone "snd r2"]
    by (intro cells_card_less[of "(row, col)"]) (auto simp: cells_def)
  then show ?case by simp
qed

declare floodFillGroup.simps [simp del]

definition getGroupSize :: "Board \<Rightarrow> int \<Rightarrow> int \<Rightarrow> Stone \<Rightarrow> nat" where
  "getGroupSize b row col stone = fst (floodFillGroup b row col stone {})"

section \<open>Move scoring and selection (npcAI.ts)\<close>

definition stoneOf :: "Color \<Rightarrow> Stone" where
  "stoneOf color = (if color = black then BLACK else WHITE)"

definition opponentOf :: "Color \<Rightarrow> Stone" where
  "opponentOf color = (if color = black then WHITE else BLACK)"

definition getPositionScore :: "Board \<Rightarrow> int \<Rightarrow> int \<Rightarrow> int" where
  "getPositionScore b row col =
     (let boardSize = min (width b) (height b) in
      if (row = 0 \<or> row = height b - 1) \<and> (col = 0 \<or> col = width b - 1)
      then (if boardSize > 9 then 8 else 4)
      else if row = 0 \<or> row = height b - 1 \<or> col = 0 \<or> col = width b - 1
      then (if boardSize > 9 then 4 else 2)
      else
        let centerRow = height b div 2;
            centerCol = width b div 2;
            distanceFromCenter = \<bar>row - centerRow\<bar> + \<bar>col - centerCol\<bar>
        in max 0 (boardSize div 3 - distanceFromCenter))"

definition checkOpponentConnections ::
  "Board \<Rightarrow> int \<Rightarrow> int \<Rightarrow> int \<Rightarrow> int \<Rightarrow> Stone \<Rightarrow> int" where
  "checkOpponentConnections b row col opponentRow opponentCol opponentStone =
     sum_list (map (\<lambda>(dr, dc).
        let checkRow = opponentRow + dr; checkCol = opponentCol + dc in
        if isValidPosition b checkRow checkCol \<and> getStone b checkRow checkCol = opponentStone
           \<and> (checkRow \<noteq> row \<or> checkCol \<noteq> col)
        then 8 else 0) directions)"

definition getBlockingScore :: "Board \<Rightarrow> int \<Rightarrow> int \<Rightarrow> Stone \<Rightarrow> Stone \<Rightarrow> int" where
  "getBlockingScore b row col playerStone opponentStone =
     sum_list (map (\<lambda>(dr, dc).
        let adjRow = row + dr; adjCol = col + dc in
        if isValidPosition b adjRow adjCol \<and> getStone b adjRow adjCol = opponentStone
        then
          (let opponentLiberties = countLiberties b adjRow adjCol opponentStone;
               opponentGroupSize = getGroupSize b adjRow adjCol opponentStone
           in (if opponentLiberties > 2 \<and> opponentGroupSize \<ge> 2 then 10 else 0)
              + checkOpponentConnections b row col adjRow adjCol opponentStone)
        else 0) directions)"

text \<open>
  The three running totals of \<open>getTerritoryScore\<close> (friendly, enemy, empty), updated per
  scanned cell.
\<close>

definition territoryStep ::
  "Board \<Rightarrow> int \<Rightarrow> int \<Rightarrow> Stone \<Rightarrow> Stone \<Rightarrow> pos \<Rightarrow> int \<times> int \<times> int \<Rightarrow> int \<times> int \<times> int" where
  "territoryStep b row col playerStone opponentStone rc acc =
     (case (rc, acc) of ((r, c), (friendlyInfluence, enemyInfluence, emptySpaces)) \<Rightarrow>
        if r = row \<and> c = col then acc
        else
          let distance = \<bar>r - row\<bar> + \<bar>c - col\<bar>;
              weight = max 1 (2 + 1 - distance);
              stone = getStone b r c
          in if stone = playerStone then (friendlyInfluence + weight, enemyInfluence, emptySpaces)
             else if stone = opponentStone then (friendlyInfluence, enemyInfluence + weight, emptySpaces)
             else (friendlyInfluence, enemyInfluence, emptySpaces + weight))"

definition getTerritoryScore :: "Board \<Rightarrow> int \<Rightarrow> int \<Rightarrow> Stone \<Rightarrow> Stone \<Rightarrow> real" where
  "getTerritoryScore b row col playerStone opponentStone =
     (case fold (territoryStep b row col playerStone opponentStone)
             [(r, c). r \<leftarrow> [max 0 (row - 2) .. min (height b - 1) (row + 2)],
                      c \<leftarrow> [max 0 (col - 2) .. min (width b - 1) (col + 2)]]
             (0, 0, 0)
      of (friendlyInfluence, enemyInfluence, emptySpaces) \<Rightarrow>
        (if friendlyInfluence > enemyInfluence
         then real_of_int ((friendlyInfluence - enemyInfluence) * 2) else 0)
        + real_of_int emptySpaces * 0.5)"

definition isStarPoint :: "Board \<Rightarrow> int \<Rightarrow> int \<Rightarrow> bool" where
  "isStarPoint b row col =
     (if width b < 9 then False
      else
        let size = width b;
            starPoints =
              (if size \<ge> 13 then
                 (let offset = (if size \<ge> 19 then 3 else 2) in
                  [(offset, offset), (offset, size - 1 - offset),
                   (size - 1 - offset, offset), (size - 1 - offset, size - 1 - offset)]
                  @ (if size mod 2 = 1 then
                       (let center = size div 2 in
                        [(center, center)]
                        @ (if size \<ge> 19
                           then [(offset, center), (center, offset),
                                 (size - 1 - offset, center), (center, size - 1 - offset)]
                           else []))
                     else []))
               else [])
        in list_ex (\<lambda>(r, c). r = row \<and> c = col) starPoints)"

definition getCornerDistance :: "Board \<Rightarrow> int \<Rightarrow> int \<Rightarrow> int" where
  "getCornerDistance b row col =
     (let corners = [(0, 0), (0, width b - 1), (height b - 1, 0), (height b - 1, width b - 1)];
          ds = map (\<lambda>(r, c). \<bar>row - r\<bar> + \<bar>col - c\<bar>) corners
      in fold min (tl ds) (hd ds))"

definition totalStones :: "Board \<Rightarrow> nat" where
  "totalStones b =
     length (filter (\<lambda>(r, c). getStone b r c \<noteq> NONE)
       [(r, c). r \<leftarrow> [0 .. height b - 1], c \<leftarrow> [0 .. width b - 1]])"

text \<open>
  \<open>gamePhase = totalStones / boardSize\<close> is NaN on a board without cells, and
  \<open>NaN < 0.25\<close> is false; for the board sizes the constructor allows the quotient of the
  two integers is below 0.25 exactly when \<open>4 * totalStones < boardSize\<close>.
\<close>

definition earlyGame :: "Board \<Rightarrow> bool" where
  "earlyGame b \<longleftrightarrow>
     (let boardSize = width b * height b in
      boardSize \<noteq> 0 \<and> real (totalStones b) / real_of_int boardSize < 0.25)"

definition getOpeningScore :: "Board \<Rightarrow> int \<Rightarrow> int \<Rightarrow> Stone \<Rightarrow> int" where
  "getOpeningScore b row col playerStone =
     (if earlyGame b then
        (if width b \<ge> 9 then
           (if isStarPoint b row col then 15 else 0)
           + (let cornerDistance = getCornerDistance b row col in
              if cornerDistance \<le> 3 then 8 - cornerDistance else 0)
         else
           (let centerRow = height b div 2;
                centerCol = width b div 2;
                distanceFromCenter = \<bar>row - centerRow\<bar> + \<bar>col - centerCol\<bar>
            in if distanceFromCenter \<le> 1 then 12
               else if distanceFromCenter \<le> 2 then 6 else 0))
      else 0)"

definition getCaptureScore :: "Board \<Rightarrow> int \<Rightarrow> int \<Rightarrow> Stone \<Rightarrow> Stone \<Rightarrow> int" where
  "getCaptureScore b row col playerStone opponentStone =
     sum_list (map (\<lambda>(dr, dc).
        let adjRow = row + dr; adjCol = col + dc in
        if isValidPosition b adjRow adjCol \<and> getStone b adjRow adjCol = opponentStone
        then (let liberties = countLiberties b adjRow adjCol opponentStone in
              if liberties = 1
              then int (getGroupSize b adjRow adjCol opponentStone) * 20 else 0)
        else 0) directions)"

definition getDefenseScore :: "Board \<Rightarrow> int \<Rightarrow> int \<Rightarrow> Stone \<Rightarrow> Stone \<Rightarrow> int" where
  "getDefenseScore b row col playerStone opponentStone =
     sum_list (map (\<lambda>(dr, dc).
        let adjRow = row + dr; adjCol = col + dc in
        if isValidPosition b adjRow adjCol \<and> getStone b adjRow adjCol = playerStone
        then (let liberties = int (countLiberties b adjRow adjCol playerStone) in
              if liberties \<le> 2 then (3 - liberties) * 15 else 0)
        else 0) directions)"

definition getConnectionScore :: "Board \<Rightarrow> int \<Rightarrow> int \<Rightarrow> Stone \<Rightarrow> int" where
  "getConnectionScore b row col playerStone =
     (let friendlyNeighbors =
            length (filter (\<lambda>(dr, dc).
              isValidPosition b (row + dr) (col + dc) \<and> getStone b (row + dr) (col + dc) = playerStone)
              directions)
      in int friendlyNeighbors * 8)"

text \<open>
  \<open>evaluateMove\<close> ends with \<open>score += (Math.random() - 0.5) * 2\<close>. The random term is the
  parameter \<open>jitter\<close>, the perturbation drawn for the cell being scored. Apart from it every
  term is a multiple of one half, far inside the range where doubles are exact.
\<close>

definition evaluateMove ::
  "(int \<Rightarrow> int \<Rightarrow> real) \<Rightarrow> Board \<Rightarrow> int \<Rightarrow> int \<Rightarrow> Stone \<Rightarrow> Stone \<Rightarrow> real" where
  "evaluateMove jitter b row col playerStone opponentStone =
     (let captureScore = getCaptureScore b row col playerStone opponentStone;
          defenseScore = getDefenseScore b row col playerStone opponentStone
      in (if captureScore > 0 then real_of_int captureScore * 3 else 0)
         + (if defenseScore > 0 then real_of_int defenseScore * 2.5 else 0)
         + real_of_int (getBlockingScore b row col playerStone opponentStone)
         + getTerritoryScore b row col playerStone opponentStone
         + real_of_int (getConnectionScore b row col playerStone)
         + real_of_int (getOpeningScore b row col playerStone)
         + real_of_int (getPositionScore b row col) * 0.5
         + jitter row col)"

definition emptyPositions :: "Board \<Rightarrow> pos list" where
  "emptyPositions b =
     filter (\<lambda>(row, col). isEmpty b row col)
       [(row, col). row \<leftarrow> [0 .. height b - 1], col \<leftarrow> [0 .. width b - 1]]"

text \<open>
  The scan for the best move. \<open>bestScore\<close> starts at \<open>-Infinity\<close>, below every score, so the
  first candidate always replaces the initial \<open>null\<close>: the accumulator is \<open>None\<close> until
  then, and afterwards holds \<open>bestMove\<close> with \<open>bestScore\<close>.
\<close>

fun bestOf :: "(pos \<Rightarrow> real) \<Rightarrow> pos list \<Rightarrow> (pos \<times> real) option \<Rightarrow> (pos \<times> real) option" where
  "bestOf score [] best = best"
| "bestOf score (p # ps) best =
     (case best of
        None \<Rightarrow> bestOf score ps (Some (p, score p))
      | Some (bestMove, bestScore) \<Rightarrow>
          if score p > bestScore then bestOf score ps (Some (p, score p))
          else bestOf score ps best)"

definition calculateMove :: "(int \<Rightarrow> int \<Rightarrow> real) \<Rightarrow> Board \<Rightarrow> Color \<Rightarrow> pos option" where
  "calculateMove jitter b color =
     (let playerStone = stoneOf color;
          opponentStone = opponentOf color;
          empties = emptyPositions b
      in if length empties = 0 then None
         else
           (case bestOf (\<lambda>(row, col). evaluateMove jitter b row col playerStone opponentStone)
                   empties None of
              None \<Rightarrow> None
            | Some ((row, col), bestScore) \<Rightarrow> Some (row + 1, col + 1)))"

section \<open>Captures and ko in the self-play loop (server.ts)\<close>

text \<open>
  \<open>getConnectedGroup\<close> is a loop over an explicit stack. The head of the list is the top
  of the stack: \<open>pop\<close> takes the head, and the neighbours pushed in the order of
  \<open>directions\<close> end up reversed on top.
\<close>

function getConnectedGroup_loop ::
  "Board \<Rightarrow> Stone \<Rightarrow> pos list \<Rightarrow> pos set \<Rightarrow> pos list \<Rightarrow> pos list" where
  "getConnectedGroup_loop b stoneType stack visited grp =
     (case stack of
        [] \<Rightarrow> grp
      | (row, col) # rest \<Rightarrow>
          if (row, col) \<in> visited then getConnectedGroup_loop b stoneType rest visited grp
          else if getStone b row col = stoneType then
            getConnectedGroup_loop b stoneType
              (rev (filter (\<lambda>(newRow, newCol).
                              newRow \<ge> 0 \<and> newRow < height b \<and> newCol \<ge> 0 \<and> newCol < width b
                              \<and> (newRow, newCol) \<notin> insert (row, col) visited)
                      (map (\<lambda>(dr, dc). (row + dr, col + dc)) directions)) @ rest)
              (insert (row, col) visited) (grp @ [(row, col)])
          else getConnectedGroup_loop b stoneType rest (insert (row, col) visited) grp)"
  by pat_completeness auto

termination getConnectedGroup_loop
proof (relation "measures [\<lambda>(b, t, stack, visited, grp). card ((cells b \<union> set stack) - visited),
                           \<lambda>(b, t, stack, visited, grp). length stack]", goal_cases)
  case 1
  then show ?case by simp
next
  case (2 b stoneType stack visited grp x rest row col)
  have "card ((cells b \<union> set rest) - visited) \<le> card ((cells b \<union> set stack) - visited)"
    using 2 by (intro card_mono) (auto simp: finite_cells)
  then show ?case using 2 by auto
next
  case (3 b stoneType stack visited grp x rest row col)
  have "card ((cells b \<union> set (rev (filter (\<lambda>(newRow, newCol).
                              newRow \<ge> 0 \<and> newRow < height b \<and> newCol \<ge> 0 \<and> newCol < width b
                              \<and> (newRow, newCol) \<notin> insert (row, col) visited)
                      (map (\<lambda>(dr, dc). (row + dr, col + dc)) directions)) @ rest))
               - insert (row, col) visited)
        < card ((cells b \<union> set stack) - visited)"
  proof (rule psubset_card_mono)
    show "finite ((cells b \<union> set stack) - visited)" by (simp add: finite_cells)
  qed (use 3 in \<open>auto simp: cells_def isValidPosition_def\<close>)
  then show ?case by simp
next
  case (4 b stoneType stack visited grp x rest row col)
  have "card ((cells b \<union> set rest) - insert (row, col) visited)
        < card ((cells b \<union> set stack) - visited)"
    using 4 by (intro psubset_card_mono) (auto simp: finite_cells)
  then show ?case by simp
qed

declare getConnectedGroup_loop.simps [simp del]

definition getConnectedGroup :: "Board \<Rightarrow> int \<Rightarrow> int \<Rightarrow> Stone \<Rightarrow> pos list" where
  "getConnectedGroup b startRow startCol stoneType =
     getConnectedGroup_loop b stoneType [(startRow, startCol)] {} []"

definition hasNoLiberties :: "Board \<Rightarrow> pos list \<Rightarrow> bool" where
  "hasNoLiberties b grp =
     list_all (\<lambda>(row, col).
       list_all (\<lambda>(dr, dc).
         let adjRow = row + dr; adjCol = col + dc in
         if adjRow < 0 \<or> adjRow \<ge> height b \<or> adjCol < 0 \<or> adjCol \<ge> width b then True
         else getStone b adjRow adjCol \<noteq> NONE) directions) grp"

definition detectCaptures :: "Board \<Rightarrow> int \<Rightarrow> int \<Rightarrow> Color \<Rightarrow> pos list" where
  "detectCaptures b justPlayedRow justPlayedCol playerColor =
     (let opponentStone = (if playerColor = black then WHITE else BLACK) in
      concat (map (\<lambda>(dr, dc).
        let adjRow = justPlayedRow + dr; adjCol = justPlayedCol + dc in
        if adjRow < 0 \<or> adjRow \<ge> height b \<or> adjCol < 0 \<or> adjCol \<ge> width b then []
        else if getStone b adjRow adjCol = opponentStone then
          (let grp = getConnectedGroup b adjRow adjCol opponentStone in
           if hasNoLiberties b grp then grp else [])
        else []) directions))"

definition detectKo :: "Board \<Rightarrow> Board \<Rightarrow> int \<Rightarrow> int \<Rightarrow> pos list \<Rightarrow> pos option" where
  "detectKo boardBefore boardAfter moveRow moveCol capturedStones =
     (if length capturedStones \<noteq> 1 then None
      else (case capturedStones ! 0 of (r, c) \<Rightarrow> Some (r + 1, c + 1)))"

definition boardStateToString :: "Board \<Rightarrow> pos option \<Rightarrow> string" where
  "boardStateToString b koPosition =
     concat (map (\<lambda>row. map (\<lambda>col.
        if (case koPosition of None \<Rightarrow> False | Some (kr, kc) \<Rightarrow> kr = row + 1 \<and> kc = col + 1)
        then CHR ''x''
        else (let stone = getStone b row col in
              if stone = BLACK then CHR ''B'' else if stone = WHITE then CHR ''W'' else CHR ''.''))
        [0 .. width b - 1]) [0 .. height b - 1])"

text \<open>
  \<open>getNPCMoveWithKo\<close> answers \<open>{row: -1, column: -1}\<close> when there is no move or when the
  chosen cell is marked \<open>x\<close> in the board string. Reading a string past its end (or at a
  negative index) gives \<open>undefined\<close>, which is not \<open>'x'\<close>.
\<close>

definition getNPCMoveWithKo ::
  "(int \<Rightarrow> int \<Rightarrow> real) \<Rightarrow> Board \<Rightarrow> Color \<Rightarrow> string \<Rightarrow> pos option" where
  "getNPCMoveWithKo jitter b color boardStateString =
     (case calculateMove jitter b color of
        None \<Rightarrow> Some (-1, -1)
      | Some (row, column) \<Rightarrow>
          let moveIndex = (row - 1) * width b + (column - 1) in
          if 0 \<le> moveIndex \<and> nat moveIndex < length boardStateString
             \<and> boardStateString ! nat moveIndex = CHR ''x''
          then Some (-1, -1)
          else Some (row, column))"

text \<open>
  One turn of \<open>simulateNPCGame\<close> after the move was chosen (the loop body from
  \<open>cloneBoard\<close> to \<open>detectKo\<close>): place the stone, detect the captures on the board with
  the new stone, remove them, derive the ko position. The result is the board after the
  move, \<open>capturedStones\<close> and \<open>newKoPosition\<close>.
\<close>

definition applyMove :: "Board \<Rightarrow> Color \<Rightarrow> pos \<Rightarrow> Board \<times> pos list \<times> pos option" where
  "applyMove board currentColor npcMove =
     (case npcMove of (row, column) \<Rightarrow>
        let boardBefore = board;
            placed = setStone board (row - 1) (column - 1) (if currentColor = black then BLACK else WHITE);
            capturedStones = detectCaptures placed (row - 1) (column - 1) currentColor;
            boardAfter = fold (\<lambda>(r, c) bd. setStone bd r c NONE) capturedStones placed;
            newKoPosition = detectKo boardBefore boardAfter row column capturedStones
        in (boardAfter, capturedStones, newKoPosition))"

section \<open>Influence and territory estimate (influence.ts)\<close>

text \<open>
  Cells are the strings \<open>"B"\<close>, \<open>"W"\<close> and \<open>"."\<close>; a cell is modelled as a character so
  that the validation of the symbols has something to reject. Numbers are reals: the
  model computes the formulas exactly, without the rounding of doubles.
\<close>

type_synonym Cell = char

datatype error =
    BoardHeightError
  | BoardWidthError int
  | InvalidCellError int int
  | DecayError
  | OcclusionFactorError
  | RangeError

record InfluenceParams =
  stoneStrength :: real
  decay :: real
  maxDistance :: "int option"
  occlusionFactor :: real
  territoryThreshold :: real

record BoardInput =
  bsize :: int
  board :: "Cell list list"

record InfluenceResult =
  rsize :: int
  black_field :: "real list list"
  white_field :: "real list list"
  net :: "real list list"
  territory :: "Cell list list"
  territoryCount :: "nat \<times> nat \<times> nat"

text \<open>The first error raised while a loop runs over \<open>xs\<close>, if any.\<close>

fun firstError :: "('a \<Rightarrow> error option) \<Rightarrow> 'a list \<Rightarrow> error option" where
  "firstError check [] = None"
| "firstError check (x # xs) = (case check x of Some e \<Rightarrow> Some e | None \<Rightarrow> firstError check xs)"

definition assertBoard :: "BoardInput \<Rightarrow> error option" where
  "assertBoard input =
     (if int (length (board input)) \<noteq> bsize input then Some BoardHeightError
      else firstError (\<lambda>y.
             if int (length (board input ! nat y)) \<noteq> bsize input then Some (BoardWidthError y)
             else firstError (\<lambda>x.
                    let c = board input ! nat y ! nat x in
                    if c \<noteq> CHR ''B'' \<and> c \<noteq> CHR ''W'' \<and> c \<noteq> CHR ''.''
                    then Some (InvalidCellError x y) else None)
                  [0 .. bsize input - 1])
           [0 .. bsize input - 1])"

definition manhattan :: "int \<Rightarrow> int \<Rightarrow> int \<Rightarrow> int \<Rightarrow> int" where
  "manhattan ax ay bx by =
     (let dx = ax - bx; dy = ay - by in (if dx < 0 then - dx else dx) + (if dy < 0 then - dy else dy))"

text \<open>
  The walk of \<open>occlusionPenalty\<close> from the stone towards the target: first along x, then
  along y, counting in \<open>blocks\<close> the opposing cells that are neither endpoint. The walk
  stays inside the rectangle spanned by the stone and the target, so \<open>board[y][x]\<close> is
  read inside the board whenever both are on the board.
\<close>

function occlusionWalk ::
  "Cell list list \<Rightarrow> int \<Rightarrow> int \<Rightarrow> int \<Rightarrow> int \<Rightarrow> Cell \<Rightarrow> int \<Rightarrow> int \<Rightarrow> nat \<Rightarrow> nat" where
  "occlusionWalk brd sx sy tx ty opp x y blocks =
     (if x \<noteq> tx \<or> y \<noteq> ty then
        (let x' = (if x \<noteq> tx then x + (if x < tx then 1 else - 1) else x);
             y' = (if x \<noteq> tx then y else if y \<noteq> ty then y + (if y < ty then 1 else - 1) else y)
         in if (x' = sx \<and> y' = sy) \<or> (x' = tx \<and> y' = ty)
            then occlusionWalk brd sx sy tx ty opp x' y' blocks
            else occlusionWalk brd sx sy tx ty opp x' y'
                   (if brd ! nat y' ! nat x' = opp then blocks + 1 else blocks))
      else blocks)"
  by pat_completeness auto

termination occlusionWalk
  by (relation "measure (\<lambda>(brd, sx, sy, tx, ty, opp, x, y, blocks). nat (\<bar>x - tx\<bar> + \<bar>y - ty\<bar>))")
     (auto split: if_splits)

declare occlusionWalk.simps [simp del]

definition occlusionPenalty ::
  "Cell list list \<Rightarrow> int \<Rightarrow> int \<Rightarrow> int \<Rightarrow> int \<Rightarrow> int \<Rightarrow> Cell \<Rightarrow> real \<Rightarrow> real" where
  "occlusionPenalty brd sz sx sy tx ty stoneColor factor =
     (let opp = (if stoneColor = CHR ''B'' then CHR ''W'' else CHR ''B'');
          blocks = occlusionWalk brd sx sy tx ty opp sx sy 0
      in if blocks \<le> 0 then 1 else factor ^ blocks)"

definition addAt :: "real list list \<Rightarrow> int \<Rightarrow> int \<Rightarrow> real \<Rightarrow> real list list" where
  "addAt grid x y v = grid[nat y := (grid ! nat y)[nat x := grid ! nat y ! nat x + v]]"

definition collectStones :: "Cell list list \<Rightarrow> int \<Rightarrow> (int \<times> int \<times> Cell) list" where
  "collectStones brd sz =
     concat (map (\<lambda>y. concat (map (\<lambda>x.
        let c = brd ! nat y ! nat x in
        if c = CHR ''B'' \<or> c = CHR ''W'' then [(x, y, c)] else [])
        [0 .. sz - 1])) [0 .. sz - 1])"

text \<open>The contributions of one stone, added to the black or the white field.\<close>

definition accumulateStone ::
  "InfluenceParams \<Rightarrow> Cell list list \<Rightarrow> int \<Rightarrow> int \<Rightarrow> int \<times> int \<times> Cell \<Rightarrow>
   real list list \<times> real list list \<Rightarrow> real list list \<times> real list list" where
  "accumulateStone params brd sz maxD s acc =
     (case s of (sx, sy, sc) \<Rightarrow>
        let minX = max 0 (sx - maxD);
            maxX = min (sz - 1) (sx + maxD);
            minY = max 0 (sy - maxD);
            maxY = min (sz - 1) (sy + maxD)
        in fold (\<lambda>y. fold (\<lambda>x (bl, wh).
                   let d = manhattan sx sy x y in
                   if d > maxD then (bl, wh)
                   else
                     let base = stoneStrength params * decay params ^ nat d;
                         occ = occlusionPenalty brd sz sx sy x y sc (occlusionFactor params);
                         contribution = base * occ
                     in if sc = CHR ''B'' then (addAt bl x y contribution, wh)
                        else (bl, addAt wh x y contribution))
                 [minX .. maxX])
             [minY .. maxY] acc)"

definition territoryCell :: "InfluenceParams \<Rightarrow> Cell \<Rightarrow> real \<Rightarrow> Cell" where
  "territoryCell params c v =
     (if c = CHR ''B'' \<or> c = CHR ''W'' then c
      else if v \<ge> territoryThreshold params then CHR ''B''
      else if v \<le> - territoryThreshold params then CHR ''W''
      else CHR ''.'')"

text \<open>
  The phases of \<open>computeInfluence\<close> after validation: the accumulation loop over the
  stones, and the final double loop that fills \<open>net\<close> and \<open>territory\<close> and tallies the
  labels given to empty cells.
\<close>

definition accumulateInfluence ::
  "InfluenceParams \<Rightarrow> Cell list list \<Rightarrow> int \<Rightarrow> int \<Rightarrow> real list list \<times> real list list" where
  "accumulateInfluence params brd sz maxD =
     fold (accumulateStone params brd sz maxD) (collectStones brd sz)
       (replicate (nat sz) (replicate (nat sz) 0), replicate (nat sz) (replicate (nat sz) 0))"

definition netGrid :: "real list list \<Rightarrow> real list list \<Rightarrow> int \<Rightarrow> real list list" where
  "netGrid blackField whiteField sz =
     map (\<lambda>y. map (\<lambda>x. blackField ! nat y ! nat x - whiteField ! nat y ! nat x) [0 .. sz - 1])
       [0 .. sz - 1]"

definition territoryGrid ::
  "InfluenceParams \<Rightarrow> Cell list list \<Rightarrow> real list list \<Rightarrow> int \<Rightarrow> Cell list list" where
  "territoryGrid params brd netField sz =
     map (\<lambda>y. map (\<lambda>x. territoryCell params (brd ! nat y ! nat x) (netField ! nat y ! nat x))
                [0 .. sz - 1]) [0 .. sz - 1]"

definition territoryTally :: "Cell list list \<Rightarrow> Cell list list \<Rightarrow> int \<Rightarrow> nat \<times> nat \<times> nat" where
  "territoryTally brd terr sz =
     (let empties = concat (map (\<lambda>y. concat (map (\<lambda>x.
                      if brd ! nat y ! nat x = CHR ''B'' \<or> brd ! nat y ! nat x = CHR ''W''
                      then [] else [terr ! nat y ! nat x]) [0 .. sz - 1])) [0 .. sz - 1])
      in (length (filter (\<lambda>c. c = CHR ''B'') empties),
          length (filter (\<lambda>c. c = CHR ''W'') empties),
          length (filter (\<lambda>c. c = CHR ''.'') empties)))"

definition computeInfluence :: "BoardInput \<Rightarrow> InfluenceParams \<Rightarrow> error + InfluenceResult" where
  "computeInfluence input params =
     (case assertBoard input of
        Some e \<Rightarrow> Inl e
      | None \<Rightarrow>
          if \<not> (decay params > 0 \<and> decay params < 1) then Inl DecayError
          else if \<not> (occlusionFactor params \<ge> 0 \<and> occlusionFactor params \<le> 1)
          then Inl OcclusionFactorError
          else
            let sz = bsize input;
                brd = board input;
                maxD = (case maxDistance params of Some m \<Rightarrow> m | None \<Rightarrow> (sz - 1) * 2);
                fields = accumulateInfluence params brd sz maxD;
                netField = netGrid (fst fields) (snd fields) sz;
                terr = territoryGrid params brd netField sz
            in Inr \<lparr>rsize = sz, black_field = fst fields, white_field = snd fields, net = netField,
                    territory = terr, territoryCount = territoryTally brd terr sz\<rparr>)"

definition DEFAULT_INFLUENCE_PARAMS :: InfluenceParams where
  "DEFAULT_INFLUENCE_PARAMS =
     \<lparr>stoneStrength = 10, decay = 0.82, maxDistance = Some 12, occlusionFactor = 0.35,
      territoryThreshold = 1.2\<rparr>"

section \<open>The adapter from boards to the influence input (influenceAdapter.ts)\<close>

record GGSInfluenceResult =
  blackInfluence :: "real list list"
  whiteInfluence :: "real list list"
  territoryNumbers :: "nat list list"

definition boardToInfluenceInput :: "Board \<Rightarrow> BoardInput" where
  "boardToInfluenceInput b =
     \<lparr>bsize = width b,
      board = map (\<lambda>row. map (\<lambda>col.
                let stone = getStone b row col in
                (case stone of NONE \<Rightarrow> CHR ''.'' | BLACK \<Rightarrow> CHR ''B'' | WHITE \<Rightarrow> CHR ''W''))
                [0 .. width b - 1]) [0 .. height b - 1]\<rparr>"

definition calculateInfluence :: "Board \<Rightarrow> error + GGSInfluenceResult" where
  "calculateInfluence b =
     (let boardInput = boardToInfluenceInput b in
      case computeInfluence boardInput DEFAULT_INFLUENCE_PARAMS of
        Inl e \<Rightarrow> Inl e
      | Inr result \<Rightarrow>
          Inr \<lparr>blackInfluence = black_field result,
               whiteInfluence = white_field result,
               territoryNumbers =
                 map (\<lambda>row. map (\<lambda>col.
                   let cell = territory result ! nat row ! nat col in
                   if cell = CHR ''B'' then 1 else if cell = CHR ''W'' then 2 else 0)
                   [0 .. rsize result - 1]) [0 .. rsize result - 1]\<rparr>)"

section \<open>Board strings (boardParser.ts)\<close>

text \<open>
  Strings are lists of 8-bit characters: the model covers the strings whose code units
  are below 256. Among these, \<open>trim\<close> and \<open>parseInt\<close> skip the six ASCII white-space
  characters and the no-break space U+00A0.
\<close>

definition isWhiteSpace :: "char \<Rightarrow> bool" where
  "isWhiteSpace c \<longleftrightarrow>
     c \<in> {CHR '' '', CHR 0x09, CHR 0x0A, CHR 0x0B, CHR 0x0C, CHR 0x0D, CHR 0xA0}"

definition trim :: "string \<Rightarrow> string" where
  "trim s = rev (dropWhile isWhiteSpace (rev (dropWhile isWhiteSpace s)))"

definition includesChar :: "string \<Rightarrow> char \<Rightarrow> bool" where
  "includesChar s c \<longleftrightarrow> c \<in> set s"

text \<open>\<open>includesChar\<close> is \<open>s.includes(c)\<close> for a one-character string \<open>c\<close>.\<close>

text \<open>\<open>s.split(c)\<close> for a one-character separator: never empty, \<open>"".split(c)\<close> is \<open>[""]\<close>.\<close>

fun splitOn :: "char \<Rightarrow> string \<Rightarrow> string list" where
  "splitOn c [] = [[]]"
| "splitOn c (x # xs) =
     (if x = c then [] # splitOn c xs
      else (case splitOn c xs of [] \<Rightarrow> [[x]] | y # ys \<Rightarrow> (x # y) # ys))"

text \<open>
  \<open>toUpperCase\<close> on these strings: the letters a to z and the accented letters U+00E0 to
  U+00FE (the division sign U+00F7 apart) move down by 32, and the sharp s U+00DF becomes
  \<open>SS\<close>. The capitals of U+00B5 and U+00FF lie above 255; the model leaves these two
  characters as they are (the parser only compares the result with \<open>B\<close> and \<open>W\<close>).
\<close>

definition upperChar :: "char \<Rightarrow> string" where
  "upperChar c =
     (let n = (of_char c :: nat) in
      if (97 \<le> n \<and> n \<le> 122) \<or> (224 \<le> n \<and> n \<le> 254 \<and> n \<noteq> 247) then [char_of (n - 32)]
      else if n = 223 then ''SS''
      else [c])"

definition toUpperCase :: "string \<Rightarrow> string" where
  "toUpperCase s = concat (map upperChar s)"

text \<open>
  The numbers \<open>parseInt\<close> produces are integers held in a double, NaN, or an infinity.
  A \<open>number\<close> is \<open>Some k\<close> for the integer \<open>k\<close> (minus zero is \<open>Some 0\<close>) and \<open>None\<close> for a
  value that is not a finite number: NaN, or the infinity that a run of digits worth
  \<open>2 ^ 1024\<close> or more gives. Every use of these numbers below treats NaN and the infinities alike:
  as an array length both raise a RangeError, in a bitwise operator both count as 0, and
  printed and parsed again both give NaN.
\<close>

type_synonym number = "int option"

text \<open>The number of binary digits of a positive integer.\<close>

function bitLength :: "int \<Rightarrow> nat" where
  "bitLength a = (if a \<le> 0 then 0 else Suc (bitLength (a div 2)))"
  by pat_completeness auto
termination by (relation "measure nat") auto

declare bitLength.simps [simp del]

text \<open>
  An integer as the nearest double: 53 significant binary digits are kept, a tie goes to
  the even neighbour, and from \<open>2 ^ 1024\<close> on the result is infinite.
\<close>

definition roundDouble :: "int \<Rightarrow> number" where
  "roundDouble k =
     (let a = \<bar>k\<bar>;
          e = bitLength a - 53;
          q = a div 2 ^ e;
          r = a mod 2 ^ e;
          q' = (if 2 * r > 2 ^ e \<or> (2 * r = 2 ^ e \<and> odd q) then q + 1 else q);
          m = q' * 2 ^ e
      in if m \<ge> 2 ^ 1024 then None else Some (sgn k * m))"

definition digitValue :: "char \<Rightarrow> int option" where
  "digitValue c =
     (let n = (of_char c :: int) in
      if 48 \<le> n \<and> n \<le> 57 then Some (n - 48)
      else if 97 \<le> n \<and> n \<le> 102 then Some (n - 87)
      else if 65 \<le> n \<and> n \<le> 70 then Some (n - 55)
      else None)"

definition isDigitIn :: "int \<Rightarrow> char \<Rightarrow> bool" where
  "isDigitIn radix c = (case digitValue c of None \<Rightarrow> False | Some d \<Rightarrow> d < radix)"

text \<open>
  \<open>parseInt(s)\<close> without a radix: leading white space, an optional sign, an optional
  \<open>0x\<close> prefix selecting radix 16, then the longest run of digits; NaN when that run is
  empty, else the value of the run as a double.
\<close>

definition parseInt :: "string \<Rightarrow> number" where
  "parseInt s =
     (let t = dropWhile isWhiteSpace s;
          sign = (case t of c # r \<Rightarrow> if c = CHR ''-'' then - 1 else 1 | [] \<Rightarrow> (1 :: int));
          u = (case t of c # r \<Rightarrow> if c = CHR ''-'' \<or> c = CHR ''+'' then r else t | [] \<Rightarrow> t);
          hex = (case u of c # d # r \<Rightarrow> c = CHR ''0'' \<and> (d = CHR ''x'' \<or> d = CHR ''X'') | _ \<Rightarrow> False);
          radix = (if hex then 16 else 10);
          v = (if hex then drop 2 u else u);
          ds = takeWhile (isDigitIn radix) v
      in if ds = [] then None
         else roundDouble (sign * foldl (\<lambda>acc c. acc * radix + the (digitValue c)) 0 ds))"

text \<open>The number of decimal digits of a positive integer.\<close>

definition decimalLength :: "int \<Rightarrow> nat" where
  "decimalLength a = length (takeWhile (\<lambda>n. 10 ^ n \<le> a) [0 ..< bitLength a + 1])"

text \<open>
  \<open>parseInt(v.toString())\<close> for a number \<open>v\<close> that \<open>parseInt\<close> produced, as
  \<open>parseLegacyFormat\<close> hands each row to \<open>parseRowBigint\<close>. Below \<open>10 ^ 21\<close> the number is
  printed in plain digits that read back as the same double. From \<open>10 ^ 21\<close> on it is
  printed with an exponent, as in \<open>1.1805916207174113e+21\<close>, and \<open>parseInt\<close> reads the
  digits before the point only: one digit, the first of the shortest decimal that rounds
  to the double. It is the first digit of the largest integer \<open>top\<close> that rounds to the
  double: the double plus half a unit of its last binary digit when that digit is even
  (the tie goes to it), and one less when it is odd. NaN and the infinities are printed
  as words and read back as NaN.
\<close>

definition toStringParseInt :: "number \<Rightarrow> number" where
  "toStringParseInt v =
     (case v of
        None \<Rightarrow> None
      | Some k \<Rightarrow>
          (let a = \<bar>k\<bar> in
           if a < 10 ^ 21 then Some k
           else
             (let e = bitLength a - 53;
                  top = a + 2 ^ (e - 1) - (if even (a div 2 ^ e) then 0 else 1)
              in Some (sgn k * (top div 10 ^ (decimalLength top - 1))))))"

text \<open>
  \<open>new Board(width, height)\<close>. \<open>Array(height)\<close> throws a RangeError unless the height is
  an integer from 0 to \<open>2 ^ 32 - 1\<close>, and \<open>Array(width)\<close> does so for the width, once per
  row. A board of height 0 keeps whatever width it was given. The record \<open>Board\<close> has
  integer dimensions, so the board without rows whose width is not a finite number is an
  outcome of its own, \<open>Rowless\<close>. Limits of memory are not modelled.
\<close>

definition validArrayLength :: "number \<Rightarrow> bool" where
  "validArrayLength n = (case n of None \<Rightarrow> False | Some k \<Rightarrow> 0 \<le> k \<and> k < 2 ^ 32)"

datatype outcome = Thrown error | Rowless | Built Board

definition newBoard :: "number \<Rightarrow> number \<Rightarrow> outcome" where
  "newBoard w h =
     (if \<not> validArrayLength h then Thrown RangeError
      else if the h > 0 \<and> \<not> validArrayLength w then Thrown RangeError
      else (case w of None \<Rightarrow> Rowless | Some k \<Rightarrow> Built (emptyBoard k (the h))))"

definition parseSize :: "string \<Rightarrow> number \<times> number" where
  "parseSize sz =
     (if includesChar sz (CHR ''x'') then
        (let parts = map (\<lambda>s. parseInt (trim s)) (splitOn (CHR ''x'') sz)
         in (parts ! 0, parts ! 1))
      else (let n = parseInt (trim sz) in (n, n)))"

text \<open>
  The 32-bit operators. \<open>toInt32\<close> is the conversion every bitwise operator applies to
  its operands (NaN and the infinities become 0); a shift uses its count modulo 32;
  \<open>>>\<close> keeps the sign.
\<close>

definition toInt32 :: "number \<Rightarrow> int" where
  "toInt32 v = (case v of None \<Rightarrow> 0 | Some k \<Rightarrow> (k + 2 ^ 31) mod 2 ^ 32 - 2 ^ 31)"

definition shiftRight32 :: "number \<Rightarrow> int \<Rightarrow> int" where
  "shiftRight32 v n = toInt32 v div 2 ^ nat (n mod 32)"

definition shiftLeft32 :: "int \<Rightarrow> int \<Rightarrow> int" where
  "shiftLeft32 v n = toInt32 (Some (toInt32 (Some v) * 2 ^ nat (n mod 32)))"

definition or32 :: "int \<Rightarrow> int \<Rightarrow> int" where
  "or32 a b = toInt32 (Some a) OR toInt32 (Some b)"

definition and32 :: "int \<Rightarrow> int \<Rightarrow> int" where
  "and32 a b = toInt32 (Some a) AND toInt32 (Some b)"

text \<open>The loop of \<open>parseRowBigint\<close> on the parsed row value.\<close>

definition parseRowValue :: "Board \<Rightarrow> int \<Rightarrow> number \<Rightarrow> int \<Rightarrow> Board" where
  "parseRowValue b row rowValue wd =
     fold (\<lambda>col bd.
        let bitPosition = (wd - 1 - col) * 2;
            stoneBits = and32 (shiftRight32 rowValue bitPosition) 3;
            stone = (if stoneBits = 0 then NONE else if stoneBits = 1 then BLACK
                     else if stoneBits = 2 then WHITE else NONE)
        in setStone bd row col stone) [0 .. wd - 1] b"

definition parseRowBigint :: "Board \<Rightarrow> int \<Rightarrow> string \<Rightarrow> int \<Rightarrow> Board" where
  "parseRowBigint b row rowString wd = parseRowValue b row (parseInt rowString) wd"

definition parseRowCells :: "Board \<Rightarrow> int \<Rightarrow> string \<Rightarrow> int \<Rightarrow> Board" where
  "parseRowCells b row rowString wd =
     (let cells = map trim (splitOn (CHR '','') rowString) in
      fold (\<lambda>col bd.
        let cell = toUpperCase (cells ! nat col);
            stone = (if cell = ''B'' then BLACK else if cell = ''W'' then WHITE else NONE)
        in setStone bd row col stone) [0 .. min (int (length cells)) wd - 1] b)"

text \<open>
  In \<open>parseLegacyFormat\<close> the call \<open>parseRowBigint(board, row, rowValue.toString(), width)\<close>
  is \<open>parseRowValue\<close> on \<open>toStringParseInt rowValue\<close>.
\<close>

definition parseLegacyFormat :: "string \<Rightarrow> string option \<Rightarrow> outcome" where
  "parseLegacyFormat boardData sz =
     (let rows = map (\<lambda>s. parseInt (trim s)) (splitOn (CHR '','') boardData);
          boardSize = (case sz of
                         None \<Rightarrow> (Some (int (length rows)), Some (int (length rows)))
                       | Some s \<Rightarrow> if s = [] then (Some (int (length rows)), Some (int (length rows)))
                                   else parseSize s)
      in case newBoard (fst boardSize) (snd boardSize) of
           Thrown e \<Rightarrow> Thrown e
         | Rowless \<Rightarrow> Rowless
         | Built b \<Rightarrow>
             Built (fold (\<lambda>row bd. parseRowValue bd row (toStringParseInt (rows ! nat row)) (width b))
                      [0 .. min (int (length rows)) (height b) - 1] b))"

definition parseNewFormat :: "string \<Rightarrow> string option \<Rightarrow> outcome" where
  "parseNewFormat boardData sz =
     (let rowStrings = map trim (splitOn (CHR '';'') boardData);
          inferred =
            (let firstRow = rowStrings ! 0 in
             if includesChar firstRow (CHR '','')
             then (Some (int (length (splitOn (CHR '','') firstRow))), Some (int (length rowStrings)))
             else (Some (int (length rowStrings)), Some (int (length rowStrings))));
          boardSize = (case sz of
                         None \<Rightarrow> inferred
                       | Some s \<Rightarrow> if s = [] then inferred else parseSize s)
      in case newBoard (fst boardSize) (snd boardSize) of
           Thrown e \<Rightarrow> Thrown e
         | Rowless \<Rightarrow> Rowless
         | Built b \<Rightarrow>
             Built (fold (\<lambda>row bd.
                      let rowString = rowStrings ! nat row in
                      if includesChar rowString (CHR '','') then parseRowCells bd row rowString (width b)
                      else parseRowBigint bd row rowString (width b))
                      [0 .. min (int (length rowStrings)) (height b) - 1] b))"

definition parseBoard :: "string \<Rightarrow> string option \<Rightarrow> outcome" where
  "parseBoard boardData sz =
     (if includesChar boardData (CHR '';'') then parseNewFormat boardData sz
      else parseLegacyFormat boardData sz)"

definition encodeBoard :: "Board \<Rightarrow> int list" where
  "encodeBoard b =
     map (\<lambda>row.
        fold (\<lambda>col rowValue.
          let stone = getStone b row col;
              stoneBits = (case stone of NONE \<Rightarrow> 0 | BLACK \<Rightarrow> 1 | WHITE \<Rightarrow> 2);
              bitPosition = (width b - 1 - col) * 2
          in or32 rowValue (shiftLeft32 stoneBits bitPosition)) [0 .. width b - 1] 0)
       [0 .. height b - 1]"

section \<open>Groups and liberties as the rules define them\<close>

text \<open>
  Orthogonal adjacency, the group of a position (every position reachable from it through
  orthogonally adjacent in-bounds cells holding the same stone value) and the liberties of
  a set of positions (the empty in-bounds cells adjacent to one of them).
\<close>

definition adjacent :: "pos \<Rightarrow> pos \<Rightarrow> bool" where
  "adjacent p q \<longleftrightarrow> \<bar>fst p - fst q\<bar> + \<bar>snd p - snd q\<bar> = 1"

definition stoneAt :: "Board \<Rightarrow> pos \<Rightarrow> Stone" where
  "stoneAt b p = getStone b (fst p) (snd p)"

definition inBounds :: "Board \<Rightarrow> pos \<Rightarrow> bool" where
  "inBounds b p = isValidPosition b (fst p) (snd p)"

inductive_set groupOf :: "Board \<Rightarrow> pos \<Rightarrow> pos set" for b :: Board and p :: pos where
  start: "p \<in> groupOf b p"
| step: "q \<in> groupOf b p \<Longrightarrow> adjacent q q' \<Longrightarrow> inBounds b q' \<Longrightarrow> stoneAt b q' = stoneAt b p
         \<Longrightarrow> q' \<in> groupOf b p"

definition libertiesOf :: "Board \<Rightarrow> pos set \<Rightarrow> pos set" where
  "libertiesOf b G = {e. inBounds b e \<and> stoneAt b e = NONE \<and> (\<exists>q\<in>G. adjacent q e)}"

inductive_set reach :: "Board \<Rightarrow> Stone \<Rightarrow> pos \<Rightarrow> pos set" for b :: Board and s :: Stone and p :: pos where
  r_start: "inBounds b p \<Longrightarrow> p \<in> reach b s p"
| r_step: "g \<in> reach b s p \<Longrightarrow> stoneAt b g = s \<Longrightarrow> adjacent g x \<Longrightarrow> inBounds b x
         \<Longrightarrow> x \<in> reach b s p"

lemma adjacent_iff:
  "adjacent (r, c) q \<longleftrightarrow> q = (r - 1, c) \<or> q = (r + 1, c) \<or> q = (r, c - 1) \<or> q = (r, c + 1)"
  by (cases q) (auto simp: adjacent_def)

lemma adjacent_sym: "adjacent p q \<Longrightarrow> adjacent q p"
  by (auto simp: adjacent_def)

lemma reach_mono:
  assumes "stoneAt b p = s" "inBounds b p" "adjacent p n"
  shows "reach b s n \<subseteq> reach b s p"
proof
  fix x assume "x \<in> reach b s n"
  then show "x \<in> reach b s p"
  proof (induction rule: reach.induct)
    case r_start
    then show ?case using assms by (meson reach.r_start reach.r_step)
  next
    case (r_step g x)
    then show ?case by (meson reach.r_step)
  qed
qed

definition ffl_post :: "Board \<Rightarrow> Stone \<Rightarrow> pos \<Rightarrow> pos set \<times> pos set \<Rightarrow> pos set \<times> pos set \<Rightarrow> bool" where
  "ffl_post b s p vl vl' \<longleftrightarrow>
     fst vl \<subseteq> fst vl' \<and> (inBounds b p \<longrightarrow> p \<in> fst vl') \<and>
     fst vl' - fst vl \<subseteq> reach b s p \<and>
     (\<forall>x \<in> fst vl' - fst vl. stoneAt b x = s \<longrightarrow> (\<forall>n. adjacent x n \<and> inBounds b n \<longrightarrow> n \<in> fst vl')) \<and>
     snd vl' = snd vl \<union> {x \<in> fst vl' - fst vl. stoneAt b x = NONE}"

lemma ffl_postD1: "ffl_post b s p vl vl' \<Longrightarrow> fst vl \<subseteq> fst vl'"
  by (simp add: ffl_post_def)

lemma ffl_postD2: "ffl_post b s p vl vl' \<Longrightarrow> inBounds b p \<Longrightarrow> p \<in> fst vl'"
  by (simp add: ffl_post_def)

lemma ffl_postD3: "ffl_post b s p vl vl' \<Longrightarrow> x \<in> fst vl' \<Longrightarrow> x \<notin> fst vl \<Longrightarrow> x \<in> reach b s p"
  unfolding ffl_post_def by blast

lemma ffl_postD4:
  "ffl_post b s p vl vl' \<Longrightarrow> x \<in> fst vl' \<Longrightarrow> x \<notin> fst vl \<Longrightarrow> stoneAt b x = s \<Longrightarrow>
   adjacent x n \<Longrightarrow> inBounds b n \<Longrightarrow> n \<in> fst vl'"
  unfolding ffl_post_def by blast

lemma ffl_postD5:
  "ffl_post b s p vl vl' \<Longrightarrow> snd vl' = snd vl \<union> {x \<in> fst vl' - fst vl. stoneAt b x = NONE}"
  by (simp add: ffl_post_def)

lemma ffl_post_chain:
  assumes s: "s \<noteq> NONE" and p: "inBounds b (r, c)" "stoneAt b (r, c) = s" "(r, c) \<notin> V"
    and 1: "ffl_post b s (r - 1, c) (insert (r, c) V, L) st1"
    and 2: "ffl_post b s (r + 1, c) st1 st2"
    and 3: "ffl_post b s (r, c - 1) st2 st3"
    and 4: "ffl_post b s (r, c + 1) st3 st4"
  shows "ffl_post b s (r, c) (V, L) st4"
proof -
  have m1: "reach b s (r - 1, c) \<subseteq> reach b s (r, c)" 
    and m2: "reach b s (r + 1, c) \<subseteq> reach b s (r, c)"
    and m3: "reach b s (r, c - 1) \<subseteq> reach b s (r, c)"
    and m4: "reach b s (r, c + 1) \<subseteq> reach b s (r, c)"
    by (rule reach_mono[OF p(2) p(1)], simp add: adjacent_iff)+
  have self: "(r, c) \<in> reach b s (r, c)" using p by (simp add: reach.r_start)
  have c1: "insert (r, c) V \<subseteq> fst st1" using ffl_postD1[OF 1] by simp
  have c2: "fst st1 \<subseteq> fst st2" using ffl_postD1[OF 2] .
  have c3: "fst st2 \<subseteq> fst st3" using ffl_postD1[OF 3] .
  have c4: "fst st3 \<subseteq> fst st4" using ffl_postD1[OF 4] .
  have pieces: "x = (r, c) \<or> (x \<in> fst st1 \<and> x \<notin> insert (r, c) V) \<or> (x \<in> fst st2 \<and> x \<notin> fst st1)
        \<or> (x \<in> fst st3 \<and> x \<notin> fst st2) \<or> (x \<in> fst st4 \<and> x \<notin> fst st3)"
    if "x \<in> fst st4" "x \<notin> V" for x
    using that by blast
  have A: "V \<subseteq> fst st4" using c1 c2 c3 c4 by blast
  have B: "(r, c) \<in> fst st4" using c1 c2 c3 c4 by blast
  have C: "x \<in> reach b s (r, c)" if "x \<in> fst st4" "x \<notin> V" for x
  proof -
    from pieces[OF that] consider (a) "x = (r, c)"
      | (b) "x \<in> fst st1" "x \<notin> insert (r, c) V" | (c) "x \<in> fst st2" "x \<notin> fst st1"
      | (d) "x \<in> fst st3" "x \<notin> fst st2" | (e) "x \<in> fst st4" "x \<notin> fst st3"
      by blast
    then show ?thesis
    proof cases
      case a then show ?thesis using self by simp
    next
      case b then have "x \<in> reach b s (r - 1, c)" using ffl_postD3[OF 1, of x] by simp
      then show ?thesis using m1 by blast
    next
      case c then have "x \<in> reach b s (r + 1, c)" using ffl_postD3[OF 2, of x] by simp
      then show ?thesis using m2 by blast
    next
      case d then have "x \<in> reach b s (r, c - 1)" using ffl_postD3[OF 3, of x] by simp
      then show ?thesis using m3 by blast
    next
      case e then have "x \<in> reach b s (r, c + 1)" using ffl_postD3[OF 4, of x] by simp
      then show ?thesis using m4 by blast
    qed
  qed
  have nb: "n \<in> fst st4" if "adjacent (r, c) n" "inBounds b n" for n
  proof -
    from that(1) consider "n = (r - 1, c)" | "n = (r + 1, c)" | "n = (r, c - 1)" | "n = (r, c + 1)"
      unfolding adjacent_iff by blast
    then show ?thesis
    proof cases
      case 1 with ffl_postD2[OF \<open>ffl_post b s (r - 1, c) (insert (r, c) V, L) st1\<close>] that(2) c2 c3 c4
      show ?thesis by blast
    next
      case 2 with ffl_postD2[OF \<open>ffl_post b s (r + 1, c) st1 st2\<close>] that(2) c3 c4
      show ?thesis by blast
    next
      case 3 with ffl_postD2[OF \<open>ffl_post b s (r, c - 1) st2 st3\<close>] that(2) c4
      show ?thesis by blast
    next
      case 4 with ffl_postD2[OF \<open>ffl_post b s (r, c + 1) st3 st4\<close>] that(2)
      show ?thesis by blast
    qed
  qed
  have D: "n \<in> fst st4" if x: "x \<in> fst st4" "x \<notin> V" "stoneAt b x = s" "adjacent x n" "inBounds b n" for x n
  proof -
    note pc = pieces[OF x(1,2)]
    from pc show ?thesis
    proof (elim disjE conjE)
      assume "x = (r, c)" then show ?thesis using nb x(4,5) by simp
    next
      assume "x \<in> fst st1" "x \<notin> insert (r, c) V"
      then have "n \<in> fst st1" using ffl_postD4[OF 1 _ _ x(3,4,5)] by simp
      then show ?thesis using c2 c3 c4 by blast
    next
      assume "x \<in> fst st2" "x \<notin> fst st1"
      then have "n \<in> fst st2" using ffl_postD4[OF 2 _ _ x(3,4,5)] by simp
      then show ?thesis using c3 c4 by blast
    next
      assume "x \<in> fst st3" "x \<notin> fst st2"
      then have "n \<in> fst st3" using ffl_postD4[OF 3 _ _ x(3,4,5)] by simp
      then show ?thesis using c4 by blast
    next
      assume "x \<in> fst st4" "x \<notin> fst st3"
      then show ?thesis using ffl_postD4[OF 4 _ _ x(3,4,5)] by simp
    qed
  qed
  have pne: "stoneAt b (r, c) \<noteq> NONE" using p(2) s by simp
  have E: "snd st4 = L \<union> {x \<in> fst st4 - V. stoneAt b x = NONE}" (is "_ = ?R")
  proof -
    have e1: "snd st1 = L \<union> {x \<in> fst st1 - insert (r, c) V. stoneAt b x = NONE}"
      using ffl_postD5[OF 1] by simp
    have "snd st4 = L \<union> {x \<in> fst st1 - insert (r, c) V. stoneAt b x = NONE}
          \<union> {x \<in> fst st2 - fst st1. stoneAt b x = NONE}
          \<union> {x \<in> fst st3 - fst st2. stoneAt b x = NONE}
          \<union> {x \<in> fst st4 - fst st3. stoneAt b x = NONE}"
      unfolding ffl_postD5[OF 4] ffl_postD5[OF 3] ffl_postD5[OF 2] e1 ..
    also have "\<dots> = ?R"
    proof (intro set_eqI iffI)
      fix x assume "x \<in> L \<union> {x \<in> fst st1 - insert (r, c) V. stoneAt b x = NONE}
          \<union> {x \<in> fst st2 - fst st1. stoneAt b x = NONE}
          \<union> {x \<in> fst st3 - fst st2. stoneAt b x = NONE}
          \<union> {x \<in> fst st4 - fst st3. stoneAt b x = NONE}"
      then show "x \<in> ?R" using c1 c2 c3 c4 by blast
    next
      fix x assume xr: "x \<in> ?R"
      show "x \<in> L \<union> {x \<in> fst st1 - insert (r, c) V. stoneAt b x = NONE}
          \<union> {x \<in> fst st2 - fst st1. stoneAt b x = NONE}
          \<union> {x \<in> fst st3 - fst st2. stoneAt b x = NONE}
          \<union> {x \<in> fst st4 - fst st3. stoneAt b x = NONE}"
      proof (cases "x \<in> L")
        case True then show ?thesis by simp
      next
        case False
        with xr have x: "x \<in> fst st4" "x \<notin> V" "stoneAt b x = NONE" by auto
        then have "x \<noteq> (r, c)" using pne by auto
        with pieces[OF x(1,2)] x(3) show ?thesis by blast
      qed
    qed
    finally show ?thesis .
  qed
  show ?thesis unfolding ffl_post_def fst_conv snd_conv
    using A B C D E by blast
qed

lemma ffl_post_holds:
  assumes "s \<noteq> NONE"
  shows "ffl_post b s (row, col) vl (floodFillLiberties b row col s vl)"
  using assms
proof (induction b row col s vl rule: floodFillLiberties.induct)
  case (1 b row col stone visited liberties)
  let ?p = "(row, col)"
  consider (a) "?p \<in> visited \<or> \<not> isValidPosition b row col"
    | (b) "?p \<notin> visited" "isValidPosition b row col" "getStone b row col = NONE"
    | (c) "?p \<notin> visited" "isValidPosition b row col" "getStone b row col \<noteq> NONE" "getStone b row col \<noteq> stone"
    | (d) "?p \<notin> visited" "isValidPosition b row col" "getStone b row col \<noteq> NONE" "getStone b row col = stone"
    by blast
  then show ?case
  proof cases
    case a
    then show ?thesis
      by (auto simp: floodFillLiberties.simps ffl_post_def inBounds_def)
  next
    case b
    then show ?thesis
      by (auto simp: floodFillLiberties.simps ffl_post_def inBounds_def stoneAt_def 1(5) intro: reach.r_start)
  next
    case c
    then show ?thesis
      by (auto simp: floodFillLiberties.simps ffl_post_def inBounds_def stoneAt_def intro: reach.r_start)
  next
    case d
    have c0: "\<not> (?p \<in> visited \<or> \<not> isValidPosition b row col)" using d by simp
    have c2: "\<not> getStone b row col \<noteq> stone" using d by simp
    note ih1 = 1(1)[OF c0 d(3) c2 1(5)]
    note ih2 = 1(2)[OF c0 d(3) c2 1(5)]
    note ih3 = 1(3)[OF c0 d(3) c2 1(5)]
    note ih4 = 1(4)[OF c0 d(3) c2 1(5)]
    have "ffl_post b stone ?p (visited, liberties)
           (floodFillLiberties b row (col + 1) stone
            (floodFillLiberties b row (col - 1) stone
              (floodFillLiberties b (row + 1) col stone
                (floodFillLiberties b (row - 1) col stone (insert (row, col) visited, liberties)))))"
      by (rule ffl_post_chain[OF 1(5) _ _ _ ih1 ih2 ih3 ih4])
         (use d in \<open>auto simp: inBounds_def stoneAt_def\<close>)
    then show ?thesis using d by (simp add: floodFillLiberties.simps[of b row col stone])
  qed
qed


text \<open>The colour opposing a stone's colour.\<close>

definition otherStone :: "Stone \<Rightarrow> Stone" where
  "otherStone s = (if s = BLACK then WHITE else BLACK)"

lemma groupOf_stone: "q \<in> groupOf b p \<Longrightarrow> stoneAt b q = stoneAt b p"
  by (induction rule: groupOf.induct) auto

lemma reach_group:
  assumes "x \<in> reach b s p" "stoneAt b p = s"
  shows "(stoneAt b x = s \<longrightarrow> x \<in> groupOf b p) \<and>
         (stoneAt b x \<noteq> s \<longrightarrow> inBounds b x \<and> (\<exists>g\<in>groupOf b p. adjacent g x))"
  using assms
proof (induction rule: reach.induct)
  case r_start
  then show ?case by (simp add: groupOf.start)
next
  case (r_step g x)
  then have g: "g \<in> groupOf b p" by simp
  show ?case
  proof (cases "stoneAt b x = s")
    case True
    then show ?thesis using g r_step groupOf.step[of g b p x] by simp
  next
    case False
    then show ?thesis using g r_step by blast
  qed
qed

lemma floodFillLiberties_liberties:
  assumes v: "isValidPosition b row col" and ne: "getStone b row col \<noteq> NONE"
  shows "snd (floodFillLiberties b row col (getStone b row col) ({}, {}))
         = libertiesOf b (groupOf b (row, col))"
proof -
  let ?s = "getStone b row col" and ?p = "(row, col)"
  let ?res = "floodFillLiberties b row col ?s ({}, {})"
  have post: "ffl_post b ?s ?p ({}, {}) ?res" by (rule ffl_post_holds[OF ne])
  have sp: "stoneAt b ?p = ?s" by (simp add: stoneAt_def)
  have ib: "inBounds b ?p" using v by (simp add: inBounds_def)
  have G: "q \<in> fst ?res" if "q \<in> groupOf b ?p" for q
    using that
  proof (induction rule: groupOf.induct)
    case start
    then show ?case using ffl_postD2[OF post ib] .
  next
    case (step q q')
    have "stoneAt b q = ?s" using groupOf_stone[OF step(1)] sp by simp
    then show ?case using ffl_postD4[OF post step(5) _ _ step(2,3)] by simp
  qed
  have L: "snd ?res = {x \<in> fst ?res. stoneAt b x = NONE}"
    using ffl_postD5[OF post] by simp
  show ?thesis
  proof (intro set_eqI iffI)
    fix x assume "x \<in> snd ?res"
    then have x: "x \<in> fst ?res" "stoneAt b x = NONE" using L by auto
    then have "x \<in> reach b ?s ?p" using ffl_postD3[OF post, of x] by simp
    from reach_group[OF this sp] x(2) ne show "x \<in> libertiesOf b (groupOf b ?p)"
      by (auto simp: libertiesOf_def)
  next
    fix x assume "x \<in> libertiesOf b (groupOf b ?p)"
    then obtain q where q: "q \<in> groupOf b ?p" "adjacent q x" "inBounds b x" "stoneAt b x = NONE"
      by (auto simp: libertiesOf_def)
    have "stoneAt b q = ?s" using groupOf_stone[OF q(1)] sp by simp
    then have "x \<in> fst ?res" using ffl_postD4[OF post G[OF q(1)] _ _ q(2,3)] by simp
    then show "x \<in> snd ?res" using L q(4) by simp
  qed
qed

lemma finite_libertiesOf: "finite (libertiesOf b G)"
proof (rule finite_subset)
  show "libertiesOf b G \<subseteq> cells b" by (auto simp: libertiesOf_def cells_def inBounds_def)
qed (rule finite_cells)

text \<open>
  Claim C3. For a position inside the board that holds a stone, \<open>countLiberties\<close> returns
  the number of distinct empty in-bounds cells orthogonally adjacent to a stone of that
  position's group, and it returns 0 exactly when every in-bounds neighbour of every stone
  of the group is either a stone of the group or a stone of the other colour.
\<close>

theorem countLiberties_spec:
  assumes "isValidPosition b row col" and "getStone b row col \<noteq> NONE"
  shows "countLiberties b row col (getStone b row col) = card (libertiesOf b (groupOf b (row, col)))
       \<and> (countLiberties b row col (getStone b row col) = 0 \<longleftrightarrow>
            (\<forall>q \<in> groupOf b (row, col). \<forall>n. adjacent q n \<and> inBounds b n \<longrightarrow>
               n \<in> groupOf b (row, col) \<or> stoneAt b n = otherStone (getStone b row col)))"
proof -
  let ?G = "groupOf b (row, col)" and ?s = "getStone b row col"
  have eq: "countLiberties b row col ?s = card (libertiesOf b ?G)"
    by (simp add: countLiberties_def floodFillLiberties_liberties[OF assms])
  have sp: "stoneAt b (row, col) = ?s" by (simp add: stoneAt_def)
  have "libertiesOf b ?G = {} \<longleftrightarrow>
        (\<forall>q \<in> ?G. \<forall>n. adjacent q n \<and> inBounds b n \<longrightarrow> n \<in> ?G \<or> stoneAt b n = otherStone ?s)"
  proof
    assume e: "libertiesOf b ?G = {}"
    show "\<forall>q \<in> ?G. \<forall>n. adjacent q n \<and> inBounds b n \<longrightarrow> n \<in> ?G \<or> stoneAt b n = otherStone ?s"
    proof (intro ballI allI impI)
      fix q n assume q: "q \<in> ?G" and n: "adjacent q n \<and> inBounds b n"
      have nn: "stoneAt b n \<noteq> NONE"
      proof
        assume "stoneAt b n = NONE"
        then have "n \<in> libertiesOf b ?G" using q n unfolding libertiesOf_def by blast
        then show False using e by simp
      qed
      show "n \<in> ?G \<or> stoneAt b n = otherStone ?s"
      proof (cases "stoneAt b n = ?s")
        case True
        then show ?thesis using groupOf.step[OF q, of n] n sp by simp
      next
        case False
        then show ?thesis using nn assms(2) by (cases "stoneAt b n"; cases ?s) (auto simp: otherStone_def)
      qed
    qed
  next
    assume a: "\<forall>q \<in> ?G. \<forall>n. adjacent q n \<and> inBounds b n \<longrightarrow> n \<in> ?G \<or> stoneAt b n = otherStone ?s"
    show "libertiesOf b ?G = {}"
    proof (rule ccontr)
      assume "libertiesOf b ?G \<noteq> {}"
      then obtain e q where e: "inBounds b e" "stoneAt b e = NONE" "q \<in> ?G" "adjacent q e"
        by (auto simp: libertiesOf_def)
      with a have "e \<in> ?G \<or> stoneAt b e = otherStone ?s" by blast
      then show False
        using e(2) groupOf_stone[of e b "(row, col)"] sp assms(2)
        by (auto simp: otherStone_def split: if_splits)
    qed
  qed
  then show ?thesis using eq finite_libertiesOf[of b ?G] by simp
qed

definition exampleAtari :: Board where
  "exampleAtari = \<lparr>stones = [[NONE, BLACK, NONE], [BLACK, WHITE, NONE], [NONE, BLACK, NONE]],
                    width = 3, height = 3\<rparr>"

theorem countLiberties_spec_witness:
  "card (libertiesOf exampleAtari (groupOf exampleAtari (1, 1))) = 1"
proof -
  have v: "isValidPosition exampleAtari 1 1" by (simp add: isValidPosition_def exampleAtari_def)
  have g: "getStone exampleAtari 1 1 = WHITE" by (simp add: getStone_def exampleAtari_def)
  have c: "countLiberties exampleAtari 1 1 WHITE = 1"
    by (simp add: countLiberties_def floodFillLiberties.simps isValidPosition_def getStone_def
        exampleAtari_def)
  show ?thesis using countLiberties_spec[of exampleAtari 1 1] v g c by simp
qed

section \<open>Captures (server.ts): the stack traversal and the capturing law\<close>

text \<open>Invariant of the stack loop of \<open>getConnectedGroup\<close>.\<close>

definition gcg_inv :: "Board \<Rightarrow> Stone \<Rightarrow> pos \<Rightarrow> pos list \<Rightarrow> pos set \<Rightarrow> pos list \<Rightarrow> bool" where
  "gcg_inv b t start stack V grp \<longleftrightarrow>
     set grp = {v \<in> V. stoneAt b v = t} \<and> distinct grp \<and>
     start \<in> V \<union> set stack \<and>
     V \<union> set stack \<subseteq> reach b t start \<and>
     (\<forall>g \<in> set grp. \<forall>n. adjacent g n \<and> inBounds b n \<longrightarrow> n \<in> V \<union> set stack)"

lemma neighbours_eq:
  "map (\<lambda>(dr, dc). (row + dr, col + dc)) directions
   = [(row - 1, col), (row + 1, col), (row, col - 1), (row, col + 1)]"
  by (simp add: directions_def)

lemma adjacent_set:
  "adjacent (row, col) n \<longleftrightarrow> n \<in> set [(row - 1, col), (row + 1, col), (row, col - 1), (row, col + 1)]"
  unfolding adjacent_iff by simp

lemma pushed_set:
  "set (rev (filter (\<lambda>(newRow, newCol).
                  newRow \<ge> 0 \<and> newRow < height b \<and> newCol \<ge> 0 \<and> newCol < width b
                  \<and> (newRow, newCol) \<notin> V')
          (map (\<lambda>(dr, dc). (row + dr, col + dc)) directions)))
   = {n. adjacent (row, col) n \<and> inBounds b n \<and> n \<notin> V'}"
proof -
  have P: "(case n of (newRow, newCol) \<Rightarrow>
                  newRow \<ge> 0 \<and> newRow < height b \<and> newCol \<ge> 0 \<and> newCol < width b
                  \<and> (newRow, newCol) \<notin> V') \<longleftrightarrow> inBounds b n \<and> n \<notin> V'" for n
    by (cases n) (simp add: inBounds_def isValidPosition_def)
  show ?thesis
    unfolding set_rev set_filter neighbours_eq P adjacent_set ..
qed

lemma gcg_inv_skip:
  assumes "gcg_inv b t start (p # rest) V grp" "p \<in> V"
  shows "gcg_inv b t start rest V grp"
proof -
  have eq: "V \<union> set (p # rest) = V \<union> set rest" using assms(2) by auto
  show ?thesis using assms(1) unfolding gcg_inv_def eq .
qed

lemma gcg_inv_other:
  assumes "gcg_inv b t start (p # rest) V grp" "p \<notin> V" "stoneAt b p \<noteq> t"
  shows "gcg_inv b t start rest (insert p V) grp"
proof -
  have eq: "V \<union> set (p # rest) = insert p V \<union> set rest" by auto
  have eq2: "{v \<in> insert p V. stoneAt b v = t} = {v \<in> V. stoneAt b v = t}" using assms(3) by auto
  show ?thesis using assms(1) unfolding gcg_inv_def eq eq2 .
qed

lemma gcg_inv_push:
  assumes inv: "gcg_inv b t start (p # rest) V grp" and nv: "p \<notin> V" and st: "stoneAt b p = t"
    and stk: "set stack' = {n. adjacent p n \<and> inBounds b n \<and> n \<notin> insert p V} \<union> set rest"
  shows "gcg_inv b t start stack' (insert p V) (grp @ [p])"
proof -
  have i1: "set grp = {v \<in> V. stoneAt b v = t}" and i2: "distinct grp"
    and i3: "start \<in> V \<union> set (p # rest)" and i4: "V \<union> set (p # rest) \<subseteq> reach b t start"
    and i5: "\<And>g n. g \<in> set grp \<Longrightarrow> adjacent g n \<Longrightarrow> inBounds b n \<Longrightarrow> n \<in> V \<union> set (p # rest)"
    using inv unfolding gcg_inv_def by blast+
  have pr: "p \<in> reach b t start" using i4 by simp
  have a: "set (grp @ [p]) = {v \<in> insert p V. stoneAt b v = t}" using i1 st by auto
  have b: "distinct (grp @ [p])" using i1 i2 nv by auto
  have c: "start \<in> insert p V \<union> set stack'" using i3 stk by auto
  have d: "insert p V \<union> set stack' \<subseteq> reach b t start"
  proof
    fix x assume "x \<in> insert p V \<union> set stack'"
    then consider "x \<in> V \<union> set (p # rest)" | "adjacent p x" "inBounds b x" using stk by auto
    then show "x \<in> reach b t start"
    proof cases
      case 1 then show ?thesis using i4 by blast
    next
      case 2 then show ?thesis using reach.r_step[OF pr st] by simp
    qed
  qed
  have e: "n \<in> insert p V \<union> set stack'" if "g \<in> set (grp @ [p])" "adjacent g n" "inBounds b n" for g n
  proof (cases "g = p")
    case True
    then show ?thesis using that stk by auto
  next
    case False
    then have "g \<in> set grp" using that(1) by simp
    from i5[OF this that(2,3)] show ?thesis using stk by auto
  qed
  show ?thesis unfolding gcg_inv_def using a b c d e by blast
qed

lemma gcg_loop_inv:
  assumes "gcg_inv b t start stack V grp"
  shows "\<exists>V'. gcg_inv b t start [] V' (getConnectedGroup_loop b t stack V grp)"
  using assms
proof (induction b t stack V grp rule: getConnectedGroup_loop.induct)
  case (1 b stoneType stack visited grp)
  show ?case
  proof (cases stack)
    case Nil
    then show ?thesis using 1(4) by (auto simp: getConnectedGroup_loop.simps[of b stoneType "[]"])
  next
    case (Cons p rest)
    obtain row col where p: "p = (row, col)" by (cases p)
    have stk: "stack = (row, col) # rest" using Cons p by simp
    consider (a) "(row, col) \<in> visited"
      | (b) "(row, col) \<notin> visited" "getStone b row col = stoneType"
      | (c) "(row, col) \<notin> visited" "getStone b row col \<noteq> stoneType" by blast
    then show ?thesis
    proof cases
      case a
      have "gcg_inv b stoneType start rest visited grp"
        using gcg_inv_skip[of b stoneType start "(row, col)" rest visited grp] 1(4) a stk by simp
      from 1(1)[OF stk refl a this] show ?thesis
        using a stk by (simp add: getConnectedGroup_loop.simps[of b stoneType "(row, col) # rest"])
    next
      case b
      let ?stack' = "rev (filter (\<lambda>(newRow, newCol).
                              newRow \<ge> 0 \<and> newRow < height b \<and> newCol \<ge> 0 \<and> newCol < width b
                              \<and> (newRow, newCol) \<notin> insert (row, col) visited)
                      (map (\<lambda>(dr, dc). (row + dr, col + dc)) directions)) @ rest"
      have "gcg_inv b stoneType start ?stack' (insert (row, col) visited) (grp @ [(row, col)])"
      proof (rule gcg_inv_push)
        show "gcg_inv b stoneType start ((row, col) # rest) visited grp" using 1(4) stk by simp
        show "(row, col) \<notin> visited" using b by simp
        show "stoneAt b (row, col) = stoneType" using b by (simp add: stoneAt_def)
        show "set ?stack' = {n. adjacent (row, col) n \<and> inBounds b n \<and> n \<notin> insert (row, col) visited} \<union> set rest"
          unfolding set_append pushed_set ..
      qed
      from 1(2)[OF stk refl b(1) b(2) this] show ?thesis
        using b stk by (simp add: getConnectedGroup_loop.simps[of b stoneType "(row, col) # rest"])
    next
      case c
      have "gcg_inv b stoneType start rest (insert (row, col) visited) grp"
        using gcg_inv_other[of b stoneType start "(row, col)" rest visited grp] 1(4) c stk
        by (simp add: stoneAt_def)
      from 1(3)[OF stk refl c(1) c(2) this] show ?thesis
        using c stk by (simp add: getConnectedGroup_loop.simps[of b stoneType "(row, col) # rest"])
    qed
  qed
qed

lemma getConnectedGroup_group:
  assumes v: "isValidPosition b row col" and st: "getStone b row col = t"
  shows "set (getConnectedGroup b row col t) = groupOf b (row, col) \<and> distinct (getConnectedGroup b row col t)"
proof -
  let ?p = "(row, col)" and ?g = "getConnectedGroup b row col t"
  have ib: "inBounds b ?p" using v by (simp add: inBounds_def)
  have sp: "stoneAt b ?p = t" using st by (simp add: stoneAt_def)
  have "gcg_inv b t ?p [?p] {} []"
    unfolding gcg_inv_def using reach.r_start[OF ib] by auto
  from gcg_loop_inv[OF this] obtain V where inv: "gcg_inv b t ?p [] V ?g"
    unfolding getConnectedGroup_def by blast
  then have i1: "set ?g = {v \<in> V. stoneAt b v = t}" and i2: "distinct ?g"
    and i3: "?p \<in> V" and i4: "V \<subseteq> reach b t ?p"
    and i5: "\<And>g n. g \<in> set ?g \<Longrightarrow> adjacent g n \<Longrightarrow> inBounds b n \<Longrightarrow> n \<in> V"
    unfolding gcg_inv_def by auto
  have sub: "q \<in> set ?g" if "q \<in> groupOf b ?p" for q
    using that
  proof (induction rule: groupOf.induct)
    case start
    then show ?case using i1 i3 sp by simp
  next
    case (step q q')
    then have "q' \<in> V" using i5 by blast
    then show ?case using i1 step(4) sp by simp
  qed
  have sup: "q \<in> groupOf b ?p" if "q \<in> set ?g" for q
  proof -
    from that have "q \<in> reach b t ?p" "stoneAt b q = t" using i1 i4 by auto
    then show ?thesis using reach_group[OF _ sp] by blast
  qed
  show ?thesis using sub sup i2 by blast
qed


text \<open>The number of stones of one colour on the board.\<close>

definition allPositions :: "Board \<Rightarrow> pos list" where
  "allPositions b = [(r, c). r \<leftarrow> [0 .. height b - 1], c \<leftarrow> [0 .. width b - 1]]"

definition stoneCount :: "Board \<Rightarrow> Stone \<Rightarrow> nat" where
  "stoneCount b s = length (filter (\<lambda>p. stoneAt b p = s) (allPositions b))"

lemma set_allPositions: "set (allPositions b) = cells b"
  by (auto simp: allPositions_def cells_alt)


lemma allPositions_product:
  "allPositions b = List.product [0 .. height b - 1] [0 .. width b - 1]"
  by (simp add: allPositions_def product_concat_map)

lemma distinct_allPositions: "distinct (allPositions b)"
  by (simp add: allPositions_product distinct_product)

lemma stoneCount_card: "stoneCount b s = card {p \<in> cells b. stoneAt b p = s}"
proof -
  have "stoneCount b s = card ({p. stoneAt b p = s} \<inter> set (allPositions b))"
    unfolding stoneCount_def by (rule distinct_length_filter[OF distinct_allPositions])
  also have "{p. stoneAt b p = s} \<inter> set (allPositions b) = {p \<in> cells b. stoneAt b p = s}"
    by (auto simp: set_allPositions)
  finally show ?thesis .
qed

lemma setStone_dims [simp]:
  "width (setStone b r c s) = width b" "height (setStone b r c s) = height b"
  by (simp_all add: setStone_def)

lemma wf_setStone: "wf_board b \<Longrightarrow> wf_board (setStone b r c s)"
  unfolding wf_board_def setStone_def list_all_length
  by (auto simp: nth_list_update)

lemma getStone_setStone:
  assumes "wf_board b"
  shows "getStone (setStone b r c s) r' c' =
         (if isValidPosition b r c \<and> r' = r \<and> c' = c then s else getStone b r' c')"
proof (cases "isValidPosition b r c")
  case False
  then show ?thesis by (auto simp: setStone_def isValidPosition_def)
next
  case True
  then have r: "nat r < length (stones b)" and c: "nat c < length (stones b ! nat r)"
    using assms unfolding wf_board_def isValidPosition_def list_all_length by auto
  show ?thesis
  proof (cases "isValidPosition b r' c'")
    case False
    then show ?thesis using True by (auto simp: getStone_def setStone_def isValidPosition_def)
  next
    case v': True
    have "stones (setStone b r c s) ! nat r' ! nat c' =
          (if r' = r \<and> c' = c then s else stones b ! nat r' ! nat c')"
      using True v' r c unfolding setStone_def isValidPosition_def
      by (auto simp: nth_list_update nat_eq_iff)
    then show ?thesis using True v' by (auto simp: getStone_def isValidPosition_def)
  qed
qed

lemma inBounds_setStone [simp]: "inBounds (setStone b r c s) p = inBounds b p"
  by (simp add: inBounds_def isValidPosition_def)

lemma stoneAt_setStone:
  "wf_board b \<Longrightarrow> stoneAt (setStone b r c s) p =
     (if inBounds b (r, c) \<and> p = (r, c) then s else stoneAt b p)"
  by (cases p) (simp add: stoneAt_def inBounds_def getStone_setStone)

lemma stoneAt_out: "\<not> inBounds b p \<Longrightarrow> stoneAt b p = NONE"
  by (auto simp: stoneAt_def inBounds_def getStone_def isValidPosition_def)

lemma fold_remove:
  assumes "wf_board b"
  shows "wf_board (fold (\<lambda>(r, c) bd. setStone bd r c NONE) xs b)
       \<and> width (fold (\<lambda>(r, c) bd. setStone bd r c NONE) xs b) = width b
       \<and> height (fold (\<lambda>(r, c) bd. setStone bd r c NONE) xs b) = height b
       \<and> (\<forall>p. stoneAt (fold (\<lambda>(r, c) bd. setStone bd r c NONE) xs b) p =
              (if p \<in> set xs then NONE else stoneAt b p))"
  using assms
proof (induction xs arbitrary: b)
  case Nil
  then show ?case by simp
next
  case (Cons x xs)
  obtain r c where x: "x = (r, c)" by (cases x)
  have wf': "wf_board (setStone b r c NONE)" using Cons.prems by (rule wf_setStone)
  have st: "stoneAt (setStone b r c NONE) p = (if p = (r, c) then NONE else stoneAt b p)" for p
    using stoneAt_setStone[OF Cons.prems, of r c NONE p] stoneAt_out[of b p] by auto
  from Cons.IH[OF wf'] show ?case unfolding x by (simp add: st)
qed

lemma liberty_check:
  "(let adjRow = r; adjCol = c in
      if adjRow < 0 \<or> adjRow \<ge> height b \<or> adjCol < 0 \<or> adjCol \<ge> width b then True
      else getStone b adjRow adjCol \<noteq> NONE)
   \<longleftrightarrow> (inBounds b (r, c) \<longrightarrow> stoneAt b (r, c) \<noteq> NONE)"
  by (auto simp: Let_def inBounds_def isValidPosition_def stoneAt_def)

lemma hasNoLiberties_iff: "hasNoLiberties b grp \<longleftrightarrow> libertiesOf b (set grp) = {}"
proof -
  have inner: "list_all (\<lambda>(dr, dc).
         let adjRow = row + dr; adjCol = col + dc in
         if adjRow < 0 \<or> adjRow \<ge> height b \<or> adjCol < 0 \<or> adjCol \<ge> width b then True
         else getStone b adjRow adjCol \<noteq> NONE) directions
       \<longleftrightarrow> (\<forall>n. adjacent (row, col) n \<and> inBounds b n \<longrightarrow> stoneAt b n \<noteq> NONE)" for row col
  proof -
    have "(\<forall>n. adjacent (row, col) n \<and> inBounds b n \<longrightarrow> stoneAt b n \<noteq> NONE)
          \<longleftrightarrow> (\<forall>n \<in> set [(row - 1, col), (row + 1, col), (row, col - 1), (row, col + 1)].
                 inBounds b n \<longrightarrow> stoneAt b n \<noteq> NONE)"
      unfolding adjacent_set by blast
    also have "\<dots> \<longleftrightarrow> list_all (\<lambda>(dr, dc).
         let adjRow = row + dr; adjCol = col + dc in
         if adjRow < 0 \<or> adjRow \<ge> height b \<or> adjCol < 0 \<or> adjCol \<ge> width b then True
         else getStone b adjRow adjCol \<noteq> NONE) directions"
      by (simp add: directions_def liberty_check)
    finally show ?thesis by simp
  qed
  have "hasNoLiberties b grp \<longleftrightarrow>
        list_all (\<lambda>(row, col). \<forall>n. adjacent (row, col) n \<and> inBounds b n \<longrightarrow> stoneAt b n \<noteq> NONE) grp"
    unfolding hasNoLiberties_def inner ..
  also have "\<dots> \<longleftrightarrow>
        (\<forall>q \<in> set grp. \<forall>n. adjacent q n \<and> inBounds b n \<longrightarrow> stoneAt b n \<noteq> NONE)"
    unfolding list_all_iff by (simp add: case_prod_beta)
  also have "\<dots> \<longleftrightarrow> libertiesOf b (set grp) = {}"
    unfolding libertiesOf_def by blast
  finally show ?thesis .
qed


lemma groupOf_inBounds: "q \<in> groupOf b p \<Longrightarrow> inBounds b p \<Longrightarrow> inBounds b q"
  by (induction rule: groupOf.induct) auto

text \<open>The group at \<open>n\<close> if it is an opposing group without liberties, else nothing.\<close>

definition capturedBy :: "Board \<Rightarrow> Stone \<Rightarrow> pos \<Rightarrow> pos set" where
  "capturedBy b opp n =
     (if inBounds b n \<and> stoneAt b n = opp \<and> libertiesOf b (groupOf b n) = {} then groupOf b n else {})"

lemma capture_one:
  "set (if ar < 0 \<or> ar \<ge> height b \<or> ac < 0 \<or> ac \<ge> width b then []
        else if getStone b ar ac = opp then
          (if hasNoLiberties b (getConnectedGroup b ar ac opp)
           then getConnectedGroup b ar ac opp else [])
        else []) = capturedBy b opp (ar, ac)"
proof (cases "isValidPosition b ar ac \<and> getStone b ar ac = opp")
  case True
  then have g: "set (getConnectedGroup b ar ac opp) = groupOf b (ar, ac)"
    using getConnectedGroup_group[of b ar ac opp] by simp
  have "hasNoLiberties b (getConnectedGroup b ar ac opp) \<longleftrightarrow> libertiesOf b (groupOf b (ar, ac)) = {}"
    unfolding hasNoLiberties_iff g ..
  then show ?thesis using True g
    by (auto simp: capturedBy_def Let_def isValidPosition_def inBounds_def stoneAt_def)
next
  case False
  then show ?thesis
    by (auto simp: capturedBy_def Let_def isValidPosition_def inBounds_def stoneAt_def)
qed

lemma detectCaptures_set:
  "set (detectCaptures b r c color) = (\<Union>n \<in> {n. adjacent (r, c) n}. capturedBy b (opponentOf color) n)"
proof -
  have adj: "{n. adjacent (r, c) n} = {(r - 1, c), (r + 1, c), (r, c - 1), (r, c + 1)}"
    unfolding adjacent_iff by auto
  have "set (detectCaptures b r c color)
        = capturedBy b (opponentOf color) (r - 1, c) \<union> capturedBy b (opponentOf color) (r + 1, c)
          \<union> capturedBy b (opponentOf color) (r, c - 1) \<union> capturedBy b (opponentOf color) (r, c + 1)"
    unfolding detectCaptures_def opponentOf_def[symmetric]
    by (simp only: Let_def directions_def list.map prod.case concat.simps set_append capture_one)
       (simp add: Un_assoc)
  then show ?thesis unfolding adj by auto
qed

text \<open>
  Claim C1 (as amended). Let \<open>b1\<close> be the board right after the stone is placed. If an
  opposing group adjacent to the new stone has no liberties on \<open>b1\<close>, every stone of it is
  empty after the move and is listed in \<open>capturedStones\<close>. The captured list holds exactly
  the stones of all adjacent opposing groups without liberties on \<open>b1\<close> (each group is
  judged on \<open>b1\<close>, before any removal), the board after the move is \<open>b1\<close> with exactly
  those cells emptied, and the stone count of the captured colour drops by the number of
  distinct captured positions.
\<close>

theorem applyMove_captures:
  assumes wf: "wf_board b"
    and b1: "b1 = setStone b (row - 1) (col - 1) (stoneOf color)"
    and res: "applyMove b color (row, col) = (b2, captured, ko)"
  shows "(\<forall>n. adjacent (row - 1, col - 1) n \<and> inBounds b1 n \<and> stoneAt b1 n = opponentOf color
              \<and> libertiesOf b1 (groupOf b1 n) = {}
           \<longrightarrow> (\<forall>q \<in> groupOf b1 n. stoneAt b2 q = NONE \<and> q \<in> set captured))
       \<and> set captured = (\<Union>n \<in> {n. adjacent (row - 1, col - 1) n \<and> inBounds b1 n
                                   \<and> stoneAt b1 n = opponentOf color
                                   \<and> libertiesOf b1 (groupOf b1 n) = {}}. groupOf b1 n)
       \<and> (\<forall>q. stoneAt b2 q = (if q \<in> set captured then NONE else stoneAt b1 q))
       \<and> stoneCount b2 (opponentOf color) + card (set captured) = stoneCount b1 (opponentOf color)"
proof -
  let ?opp = "opponentOf color"
  have cap: "captured = detectCaptures b1 (row - 1) (col - 1) color"
    and b2: "b2 = fold (\<lambda>(r, c) bd. setStone bd r c NONE) captured b1"
    using res unfolding applyMove_def b1 stoneOf_def
    by (auto simp: Let_def split del: if_split)
  have wf1: "wf_board b1" unfolding b1 using wf by (rule wf_setStone)
  note fr = fold_remove[OF wf1, of captured, folded b2]
  have S: "set captured = (\<Union>n \<in> {n. adjacent (row - 1, col - 1) n \<and> inBounds b1 n
                                   \<and> stoneAt b1 n = ?opp
                                   \<and> libertiesOf b1 (groupOf b1 n) = {}}. groupOf b1 n)"
    unfolding cap detectCaptures_set by (auto simp: capturedBy_def split: if_splits)
  have R: "stoneAt b2 q = (if q \<in> set captured then NONE else stoneAt b1 q)" for q
    using fr by blast
  have A: "\<forall>n. adjacent (row - 1, col - 1) n \<and> inBounds b1 n \<and> stoneAt b1 n = ?opp
              \<and> libertiesOf b1 (groupOf b1 n) = {}
           \<longrightarrow> (\<forall>q \<in> groupOf b1 n. stoneAt b2 q = NONE \<and> q \<in> set captured)"
  proof (intro allI impI ballI)
    fix n q assume n: "adjacent (row - 1, col - 1) n \<and> inBounds b1 n \<and> stoneAt b1 n = ?opp
              \<and> libertiesOf b1 (groupOf b1 n) = {}" and q: "q \<in> groupOf b1 n"
    then have "q \<in> set captured" unfolding S by blast
    then show "stoneAt b2 q = NONE \<and> q \<in> set captured" using R by simp
  qed
  have sub: "set captured \<subseteq> {p \<in> cells b1. stoneAt b1 p = ?opp}"
  proof
    fix q assume "q \<in> set captured"
    then obtain n where n: "inBounds b1 n" "stoneAt b1 n = ?opp" "q \<in> groupOf b1 n"
      unfolding S by blast
    then show "q \<in> {p \<in> cells b1. stoneAt b1 p = ?opp}"
      using groupOf_inBounds[OF n(3) n(1)] groupOf_stone[OF n(3)]
      by (simp add: cells_def inBounds_def)
  qed
  have oppne: "?opp \<noteq> NONE" by (simp add: opponentOf_def)
  have cells2: "cells b2 = cells b1" using fr by (simp add: cells_alt)
  have "{p \<in> cells b2. stoneAt b2 p = ?opp} = {p \<in> cells b1. stoneAt b1 p = ?opp} - set captured"
    unfolding cells2 using R oppne by auto
  then have "stoneCount b2 ?opp = card ({p \<in> cells b1. stoneAt b1 p = ?opp} - set captured)"
    by (simp add: stoneCount_card)
  also have "\<dots> = card {p \<in> cells b1. stoneAt b1 p = ?opp} - card (set captured)"
    by (rule card_Diff_subset[OF _ sub]) simp
  finally have C: "stoneCount b2 ?opp + card (set captured) = stoneCount b1 ?opp"
    using card_mono[OF _ sub] finite_cells[of b1] by (simp add: stoneCount_card)
  show ?thesis using A S R C by blast
qed

definition twoGroups :: Board where
  "twoGroups = \<lparr>stones = [[WHITE, NONE, WHITE]], width = 3, height = 1\<rparr>"

definition twoGroupsPlaced :: Board where
  "twoGroupsPlaced = \<lparr>stones = [[WHITE, BLACK, WHITE]], width = 3, height = 1\<rparr>"

lemma twoGroups_placed: "setStone twoGroups 0 1 BLACK = twoGroupsPlaced"
  by code_simp

lemma twoGroups_applyMove:
  "applyMove twoGroups black (1, 2)
   = (\<lparr>stones = [[NONE, BLACK, NONE]], width = 3, height = 1\<rparr>, [(0, 0), (0, 2)], None)"
  by code_simp

text \<open>
  Claim C1 as stated fails: on the one-row board \<open>W . W\<close> black plays the middle cell. The
  white group at (0,0) has no liberty left and has one stone, but two white stones leave
  the board, because the group at (0,2) is captured by the same move.
\<close>

theorem applyMove_group_size_counterexample:
  "adjacent (0, 1) (0, 0) \<and> stoneAt (setStone twoGroups 0 1 BLACK) (0, 0) = WHITE
   \<and> libertiesOf (setStone twoGroups 0 1 BLACK) (groupOf (setStone twoGroups 0 1 BLACK) (0, 0)) = {}
   \<and> card (groupOf (setStone twoGroups 0 1 BLACK) (0, 0)) = 1
   \<and> stoneCount (setStone twoGroups 0 1 BLACK) WHITE = 2
   \<and> stoneCount (fst (applyMove twoGroups black (1, 2))) WHITE = 0"
proof -
  have v: "isValidPosition twoGroupsPlaced 0 0" by code_simp
  have g: "getStone twoGroupsPlaced 0 0 = WHITE" by code_simp
  have gl: "getConnectedGroup twoGroupsPlaced 0 0 WHITE = [(0, 0)]" by code_simp
  have G: "groupOf twoGroupsPlaced (0, 0) = {(0, 0)}"
    using getConnectedGroup_group[OF v g] by (simp add: gl)
  have "hasNoLiberties twoGroupsPlaced [(0, 0)]" by code_simp
  then have L: "libertiesOf twoGroupsPlaced {(0, 0)} = {}"
    unfolding hasNoLiberties_iff by simp
  have c1: "stoneCount twoGroupsPlaced WHITE = 2" by code_simp
  have c2: "stoneCount \<lparr>stones = [[NONE, BLACK, NONE]], width = 3, height = 1\<rparr> WHITE = 0"
    by code_simp
  show ?thesis
    unfolding twoGroups_placed twoGroups_applyMove fst_conv G
    using L c1 c2 g by (simp add: adjacent_def stoneAt_def)
qed

theorem applyMove_captures_witness:
  "stoneAt (fst (applyMove twoGroups black (1, 2))) (0, 2) = NONE
   \<and> (0, 2) \<in> set (fst (snd (applyMove twoGroups black (1, 2))))
   \<and> stoneCount (fst (applyMove twoGroups black (1, 2))) WHITE
       + card (set (fst (snd (applyMove twoGroups black (1, 2)))))
     = stoneCount (setStone twoGroups 0 1 BLACK) WHITE"
proof -
  have wf: "wf_board twoGroups" by code_simp
  have b1: "setStone twoGroups 0 1 BLACK = setStone twoGroups (1 - 1) (2 - 1) (stoneOf black)"
    by (simp add: stoneOf_def)
  have res: "applyMove twoGroups black (1, 2)
             = (fst (applyMove twoGroups black (1, 2)), fst (snd (applyMove twoGroups black (1, 2))),
                snd (snd (applyMove twoGroups black (1, 2))))"
    by simp
  have v: "isValidPosition twoGroupsPlaced 0 2" by code_simp
  have g: "getStone twoGroupsPlaced 0 2 = WHITE" by code_simp
  have gr: "getConnectedGroup twoGroupsPlaced 0 2 WHITE = [(0, 2)]" by code_simp
  have G: "groupOf twoGroupsPlaced (0, 2) = {(0, 2)}"
    using getConnectedGroup_group[OF v g] by (simp add: gr)
  have "hasNoLiberties twoGroupsPlaced [(0, 2)]" by code_simp
  then have L: "libertiesOf twoGroupsPlaced (groupOf twoGroupsPlaced (0, 2)) = {}"
    unfolding hasNoLiberties_iff G by simp
  have n: "adjacent (1 - 1, 2 - 1) (0, 2) \<and> inBounds (setStone twoGroups 0 1 BLACK) (0, 2)
           \<and> stoneAt (setStone twoGroups 0 1 BLACK) (0, 2) = opponentOf black
           \<and> libertiesOf (setStone twoGroups 0 1 BLACK) (groupOf (setStone twoGroups 0 1 BLACK) (0, 2)) = {}"
    unfolding twoGroups_placed using L g v
    by (simp add: adjacent_def inBounds_def stoneAt_def opponentOf_def)
  have q: "(0, 2) \<in> groupOf (setStone twoGroups 0 1 BLACK) (0, 2)" by (rule groupOf.start)
  note T = applyMove_captures[OF wf b1 res]
  note A = T[THEN conjunct1, THEN spec, THEN mp, OF n, THEN bspec, OF q]
  note C = T[THEN conjunct2, THEN conjunct2, THEN conjunct2]
  from A C show ?thesis by (simp add: opponentOf_def)
qed

section \<open>Move selection: the first maximum in scan order\<close>

text \<open>The jitter term fixed at zero.\<close>

definition zeroJitter :: "int \<Rightarrow> int \<Rightarrow> real" where
  "zeroJitter row col = 0"







lemma emptyPositions_set:
  "set (emptyPositions b) = {p. inBounds b p \<and> stoneAt b p = NONE}"
proof -
  have "set [(row, col). row \<leftarrow> [0 .. height b - 1], col \<leftarrow> [0 .. width b - 1]] = cells b"
    by (auto simp: cells_alt)
  then show ?thesis
    unfolding emptyPositions_def
    by (auto simp: isEmpty_def inBounds_def stoneAt_def cells_def)
qed


definition ko5 :: Board where
  "ko5 = \<lparr>stones = [[NONE, NONE, NONE, NONE, NONE],
                      [NONE, BLACK, WHITE, NONE, NONE],
                      [BLACK, WHITE, NONE, WHITE, NONE],
                      [NONE, BLACK, WHITE, NONE, NONE],
                      [NONE, NONE, NONE, NONE, NONE]], width = 5, height = 5\<rparr>"

definition ko5After :: Board where
  "ko5After = \<lparr>stones = [[NONE, NONE, NONE, NONE, NONE],
                      [NONE, BLACK, WHITE, NONE, NONE],
                      [BLACK, NONE, BLACK, WHITE, NONE],
                      [NONE, BLACK, WHITE, NONE, NONE],
                      [NONE, NONE, NONE, NONE, NONE]], width = 5, height = 5\<rparr>"

lemma ko5_move: "applyMove ko5 black (3, 3) = (ko5After, [(2, 1)], Some (3, 2))"
  by code_simp

text \<open>
  \<open>calculateMove\<close> itself knows nothing of ko: in this position it picks the ko cell for
  white, and \<open>getNPCMoveWithKo\<close> answers the no-move value instead.
\<close>

lemma ko5_calculateMove: "calculateMove zeroJitter ko5After white = Some (3, 2)"
  by code_simp

lemma ko5_guard:
  "getNPCMoveWithKo zeroJitter ko5After white (boardStateToString ko5After (Some (3, 2))) = Some (-1, -1)"
  by code_simp


section \<open>Ko\<close>

text \<open>What \<open>detectCaptures\<close> appends for one neighbour of the played cell.\<close>

definition captureAt :: "Board \<Rightarrow> Stone \<Rightarrow> pos \<Rightarrow> pos list" where
  "captureAt b opp n =
     (if fst n < 0 \<or> fst n \<ge> height b \<or> snd n < 0 \<or> snd n \<ge> width b then []
      else if getStone b (fst n) (snd n) = opp then
        (if hasNoLiberties b (getConnectedGroup b (fst n) (snd n) opp)
         then getConnectedGroup b (fst n) (snd n) opp else [])
      else [])"

lemma detectCaptures_parts:
  "detectCaptures b r c color =
     captureAt b (opponentOf color) (r - 1, c) @ captureAt b (opponentOf color) (r + 1, c)
     @ captureAt b (opponentOf color) (r, c - 1) @ captureAt b (opponentOf color) (r, c + 1)"
  unfolding detectCaptures_def opponentOf_def[symmetric] captureAt_def
  by (simp add: Let_def directions_def)

lemma captureAt_shape:
  "captureAt b opp n = [] \<or> (distinct (captureAt b opp n) \<and> n \<in> set (captureAt b opp n))"
proof (cases "captureAt b opp n = []")
  case True
  then show ?thesis by simp
next
  case False
  then have v: "isValidPosition b (fst n) (snd n)" and g: "getStone b (fst n) (snd n) = opp"
    and eq: "captureAt b opp n = getConnectedGroup b (fst n) (snd n) opp"
    unfolding captureAt_def isValidPosition_def by (auto split: if_splits)
  from getConnectedGroup_group[OF v g] groupOf.start[of "(fst n, snd n)" b]
  show ?thesis unfolding eq by auto
qed

lemma singleton_part:
  assumes "xs = [] \<or> (distinct xs \<and> n \<in> set xs)" "set xs \<subseteq> {x}"
  shows "xs = [] \<or> (xs = [x] \<and> n = x)"
proof (cases xs)
  case Nil
  then show ?thesis by simp
next
  case (Cons a ys)
  then have d: "distinct xs" "n \<in> set xs" using assms(1) by auto
  have "a = x" using assms(2) Cons by simp
  moreover have "ys = []"
  proof (cases ys)
    case (Cons b zs)
    then have "b = x" using assms(2) \<open>xs = a # ys\<close> by simp
    then show ?thesis using d(1) \<open>a = x\<close> \<open>xs = a # ys\<close> Cons by simp
  qed simp
  ultimately show ?thesis using d(2) Cons assms(2) by auto
qed

lemma detectCaptures_single:
  assumes "set (detectCaptures b r c color) = {x}"
  shows "detectCaptures b r c color = [x]"
proof -
  let ?o = "opponentOf color"
  let ?a = "captureAt b ?o (r - 1, c)" and ?b = "captureAt b ?o (r + 1, c)"
  let ?c = "captureAt b ?o (r, c - 1)" and ?d = "captureAt b ?o (r, c + 1)"
  have s: "set ?a \<subseteq> {x}" "set ?b \<subseteq> {x}" "set ?c \<subseteq> {x}" "set ?d \<subseteq> {x}"
    using assms unfolding detectCaptures_parts by auto
  note A = singleton_part[OF captureAt_shape s(1)]
  note B = singleton_part[OF captureAt_shape s(2)]
  note C = singleton_part[OF captureAt_shape s(3)]
  note D = singleton_part[OF captureAt_shape s(4)]
  have ne: "?a @ ?b @ ?c @ ?d \<noteq> []" using assms unfolding detectCaptures_parts by auto
  have "?a @ ?b @ ?c @ ?d = [x]"
    using A B C D ne by (auto)
  then show ?thesis unfolding detectCaptures_parts .
qed

lemma concat_nth_uniform:
  assumes "\<forall>r \<in> set xs. length (f r) = w" "i < length xs" "j < w"
  shows "concat (map f xs) ! (i * w + j) = f (xs ! i) ! j"
  using assms
proof (induction xs arbitrary: i)
  case Nil
  then show ?case by simp
next
  case (Cons a xs)
  show ?case
  proof (cases i)
    case 0
    then show ?thesis using Cons.prems by (simp add: nth_append)
  next
    case (Suc k)
    then have "concat (map f xs) ! (k * w + j) = f (xs ! k) ! j"
      using Cons by simp
    then show ?thesis using Suc Cons.prems by (simp add: nth_append)
  qed
qed

lemma concat_length_uniform:
  "\<forall>r \<in> set xs. length (f r) = w \<Longrightarrow> length (concat (map f xs)) = length xs * w"
  by (induction xs) auto

lemma boardStateToString_ko:
  assumes "isValidPosition b (kr - 1) (kc - 1)"
  shows "nat ((kr - 1) * width b + (kc - 1)) < length (boardStateToString b (Some (kr, kc)))
       \<and> boardStateToString b (Some (kr, kc)) ! nat ((kr - 1) * width b + (kc - 1)) = CHR ''x''"
proof -
  let ?cell = "\<lambda>row col.
        if (case Some (kr, kc) of None \<Rightarrow> False | Some (kr, kc) \<Rightarrow> kr = row + 1 \<and> kc = col + 1)
        then CHR ''x''
        else (let stone = getStone b row col in
              if stone = BLACK then CHR ''B'' else if stone = WHITE then CHR ''W'' else CHR ''.'')"
  let ?f = "\<lambda>row. map (?cell row) [0 .. width b - 1]"
  let ?w = "nat (width b)" and ?i = "nat (kr - 1)" and ?j = "nat (kc - 1)"
  have bnd: "0 \<le> kr - 1" "kr - 1 < height b" "0 \<le> kc - 1" "kc - 1 < width b"
    using assms by (auto simp: isValidPosition_def)
  have len: "\<forall>r \<in> set [0 .. height b - 1]. length (?f r) = ?w" by simp
  have i: "?i < length [0 .. height b - 1]" using bnd by simp
  have j: "?j < ?w" using bnd by simp
  have idx: "nat ((kr - 1) * width b + (kc - 1)) = ?i * ?w + ?j"
    using bnd by (simp add: nat_add_distrib nat_mult_distrib)
  have s: "boardStateToString b (Some (kr, kc)) = concat (map ?f [0 .. height b - 1])"
    unfolding boardStateToString_def ..
  have "concat (map ?f [0 .. height b - 1]) ! (?i * ?w + ?j) = ?f ([0 .. height b - 1] ! ?i) ! ?j"
    by (rule concat_nth_uniform[OF len i j])
  also have "\<dots> = CHR ''x''" using bnd by simp
  finally have v: "boardStateToString b (Some (kr, kc)) ! nat ((kr - 1) * width b + (kc - 1)) = CHR ''x''"
    unfolding s idx .
  have "length (boardStateToString b (Some (kr, kc))) = length [0 .. height b - 1] * ?w"
    unfolding s by (rule concat_length_uniform[OF len])
  also have "\<dots> = nat (height b) * ?w" by simp
  finally have l: "length (boardStateToString b (Some (kr, kc))) = nat (height b) * ?w" .
  have "?i * ?w + ?j < nat (height b) * ?w"
  proof -
    have "?i + 1 \<le> nat (height b)" using bnd by simp
    then have "(?i + 1) * ?w \<le> nat (height b) * ?w" by (rule mult_le_mono1)
    moreover have "?i * ?w + ?j < (?i + 1) * ?w" using j by simp
    ultimately show ?thesis by linarith
  qed
  then show ?thesis using v l idx by simp
qed

lemma bestOf_member:
  "bestOf score ps best = Some (p, v) \<Longrightarrow> p \<in> set ps \<or> best = Some (p, v)"
  by (induction ps arbitrary: best) (auto split: option.splits prod.splits if_splits)

lemma calculateMove_empty_cell:
  assumes "calculateMove jitter b color = Some (row, col)"
  shows "(row - 1, col - 1) \<in> set (emptyPositions b)"
proof -
  let ?score = "\<lambda>(row, col). evaluateMove jitter b row col (stoneOf color) (opponentOf color)"
  from assms obtain r c v where
    b: "bestOf ?score (emptyPositions b) None = Some ((r, c), v)" and rc: "row = r + 1" "col = c + 1"
    unfolding calculateMove_def by (auto simp: Let_def split: if_splits option.splits prod.splits)
  from bestOf_member[OF b] show ?thesis using rc by simp
qed

lemma getNPCMoveWithKo_avoids:
  assumes "isValidPosition b (kr - 1) (kc - 1)"
  shows "getNPCMoveWithKo jitter b color (boardStateToString b (Some (kr, kc))) \<noteq> Some (kr, kc)"
proof (cases "calculateMove jitter b color")
  case None
  then show ?thesis using assms by (auto simp: getNPCMoveWithKo_def isValidPosition_def)
next
  case (Some m)
  obtain row col where m: "m = (row, col)" by (cases m)
  show ?thesis
  proof (cases "m = (kr, kc)")
    case True
    then show ?thesis
      using Some boardStateToString_ko[OF assms] assms
      by (simp add: getNPCMoveWithKo_def isValidPosition_def Let_def)
  next
    case False
    then show ?thesis using Some m assms
      by (auto simp: getNPCMoveWithKo_def isValidPosition_def Let_def)
  qed
qed


lemma detectCaptures_inBounds:
  assumes "q \<in> set (detectCaptures b r c color)"
  shows "inBounds b q"
proof -
  from assms obtain n where "q \<in> capturedBy b (opponentOf color) n"
    unfolding detectCaptures_set by blast
  then have "inBounds b n" "q \<in> groupOf b n"
    unfolding capturedBy_def by (auto split: if_splits)
  then show ?thesis using groupOf_inBounds by blast
qed

text \<open>
  Claim C2. When the captured stones of a move are exactly one stone, the ko position of
  the move is that stone's one-based coordinate, and otherwise there is none. On the
  next turn \<open>getNPCMoveWithKo\<close>, called as the game loop calls it (on the board after the
  move, with the board string that marks the ko cell), does not return that coordinate,
  whichever colour moves and whatever the random perturbations are.
\<close>

theorem ko_law:
  assumes wf: "wf_board b"
    and res: "applyMove b color (row, col) = (b2, captured, ko)"
  shows "(\<forall>r c. set captured = {(r, c)} \<longrightarrow>
            ko = Some (r + 1, c + 1) \<and>
            getNPCMoveWithKo jitter b2 nextColor (boardStateToString b2 ko) \<noteq> Some (r + 1, c + 1))
       \<and> (card (set captured) \<noteq> 1 \<longrightarrow> ko = None)"
proof -
  let ?b1 = "setStone b (row - 1) (col - 1) (if color = black then BLACK else WHITE)"
  have cap: "captured = detectCaptures ?b1 (row - 1) (col - 1) color"
    and b2: "b2 = fold (\<lambda>(r, c) bd. setStone bd r c NONE) captured ?b1"
    and ko: "ko = detectKo b b2 row col captured"
    using res unfolding applyMove_def by (auto simp: Let_def split del: if_split)
  have wf1: "wf_board ?b1" using wf by (rule wf_setStone)
  note fr = fold_remove[OF wf1, of captured, folded b2]
  have one: "ko = Some (r + 1, c + 1) \<and>
            getNPCMoveWithKo jitter b2 nextColor (boardStateToString b2 ko) \<noteq> Some (r + 1, c + 1)"
    if s: "set captured = {(r, c)}" for r c
  proof -
    have l: "captured = [(r, c)]" using detectCaptures_single[of ?b1 "row - 1" "col - 1" color "(r, c)"] s
      unfolding cap by simp
    then have k: "ko = Some (r + 1, c + 1)" unfolding ko detectKo_def by simp
    have "inBounds ?b1 (r, c)" using detectCaptures_inBounds[of "(r, c)" ?b1 "row - 1" "col - 1" color] s
      unfolding cap by simp
    then have "isValidPosition b2 (r + 1 - 1) (c + 1 - 1)"
      using fr by (simp add: inBounds_def isValidPosition_def)
    from getNPCMoveWithKo_avoids[OF this] show ?thesis unfolding k by simp
  qed
  have none: "ko = None" if "card (set captured) \<noteq> 1"
  proof -
    have "length captured \<noteq> 1"
    proof
      assume "length captured = 1"
      then obtain x where "captured = [x]" by (cases captured) auto
      then show False using that by simp
    qed
    then show ?thesis unfolding ko detectKo_def by simp
  qed
  show ?thesis using one none by blast
qed

theorem ko_law_witness:
  "snd (snd (applyMove ko5 black (3, 3))) = Some (3, 2)
   \<and> getNPCMoveWithKo zeroJitter (fst (applyMove ko5 black (3, 3))) white
        (boardStateToString (fst (applyMove ko5 black (3, 3)))
           (snd (snd (applyMove ko5 black (3, 3))))) \<noteq> Some (3, 2)"
proof -
  have wf: "wf_board ko5" by code_simp
  have res: "applyMove ko5 black (3, 3)
             = (fst (applyMove ko5 black (3, 3)), fst (snd (applyMove ko5 black (3, 3))),
                snd (snd (applyMove ko5 black (3, 3))))"
    by simp
  have s: "set (fst (snd (applyMove ko5 black (3, 3)))) = {(2, 1)}"
    by (simp add: ko5_move)
  from ko_law[OF wf res, of zeroJitter white, THEN conjunct1, THEN spec, THEN spec, THEN mp, OF s]
  show ?thesis by (simp add: ko5_move)
qed

section \<open>The opening feature\<close>

text \<open>
  \<open>isStarPoint\<close> knows no star point on a board less than 13 wide: the list it searches
  is filled only from width 13 on.
\<close>

lemma isStarPoint_none_below_13: "width b < 13 \<Longrightarrow> \<not> isStarPoint b row col"
  by (simp add: isStarPoint_def Let_def)

text \<open>
  From width 13 to 18 the corner star points are at offset 2 from the edges, so every
  star point has its row among 2, \<open>width - 3\<close> and the centre line.
\<close>

lemma isStarPoint_offset_2:
  "13 \<le> width b \<Longrightarrow> width b < 19 \<Longrightarrow> isStarPoint b row col \<Longrightarrow>
     row \<in> {2, width b - 3, width b div 2} \<and> col \<in> {2, width b - 3, width b div 2}"
  by (auto simp: isStarPoint_def Let_def split: if_splits)

text \<open>
  Claim C8 fails, and by a fault of the code: \<open>isStarPoint\<close> is documented as the
  traditional opening points. On the empty 9x9 board the 3-3 point (2,2) and the centre
  (4,4), star points of the 9x9 board, are no star points for the code and get no
  opening bonus at all. On the empty 13x13 board the 4-4 point (3,3), a star point of
  the 13x13 board, is none for the code and gets no bonus, while the 3-3 point (2,2),
  which is none, gets the 15 of a star point.
\<close>

theorem getOpeningScore_star_points:
  "min (width (emptyBoard 9 9)) (height (emptyBoard 9 9)) \<ge> 9 \<and> earlyGame (emptyBoard 9 9)
   \<and> \<not> isStarPoint (emptyBoard 9 9) 2 2 \<and> \<not> isStarPoint (emptyBoard 9 9) 4 4
   \<and> getOpeningScore (emptyBoard 9 9) 2 2 BLACK = 0
   \<and> getOpeningScore (emptyBoard 9 9) 4 4 BLACK = 0
   \<and> min (width (emptyBoard 13 13)) (height (emptyBoard 13 13)) \<ge> 9 \<and> earlyGame (emptyBoard 13 13)
   \<and> \<not> isStarPoint (emptyBoard 13 13) 3 3 \<and> isStarPoint (emptyBoard 13 13) 2 2
   \<and> getOpeningScore (emptyBoard 13 13) 3 3 BLACK = 0
   \<and> getOpeningScore (emptyBoard 13 13) 2 2 BLACK = 15"
  by code_simp

text \<open>
  The choice between the two branches of \<open>getOpeningScore\<close> reads the width alone: on the
  empty board 9 wide and 5 high the smaller side is below 9, and the centre cell (2,4)
  gets no centre bonus.
\<close>

lemma getOpeningScore_width_only:
  "min (width (emptyBoard 9 5)) (height (emptyBoard 9 5)) < 9 \<and> earlyGame (emptyBoard 9 5)
   \<and> getOpeningScore (emptyBoard 9 5) 2 4 BLACK = 0"
  by code_simp

section \<open>Influence: what a stone contributes\<close>

text \<open>
  The coordinates visited when stepping from \<open>a\<close> towards \<open>b\<close>, without \<open>a\<close>, with \<open>b\<close>;
  the path that steps fully along x and then along y; and the number of opposing cells on
  it other than the two endpoints.
\<close>

definition stepsToward :: "int \<Rightarrow> int \<Rightarrow> int list" where
  "stepsToward a b = (if a \<le> b then [a + 1 .. b] else rev [b .. a - 1])"

definition manhattanPath :: "int \<Rightarrow> int \<Rightarrow> int \<Rightarrow> int \<Rightarrow> (int \<times> int) list" where
  "manhattanPath sx sy tx ty =
     map (\<lambda>x. (x, sy)) (stepsToward sx tx) @ map (\<lambda>y. (tx, y)) (stepsToward sy ty)"

definition blockCount :: "Cell list list \<Rightarrow> int \<Rightarrow> int \<Rightarrow> int \<Rightarrow> int \<Rightarrow> Cell \<Rightarrow> nat" where
  "blockCount brd sx sy tx ty opp =
     length (filter (\<lambda>(x, y). (x, y) \<noteq> (sx, sy) \<and> (x, y) \<noteq> (tx, ty) \<and> brd ! nat y ! nat x = opp)
               (manhattanPath sx sy tx ty))"

lemma stepsToward_same [simp]: "stepsToward a a = []"
  by (simp add: stepsToward_def)

lemma stepsToward_up: "a < b \<Longrightarrow> stepsToward a b = (a + 1) # stepsToward (a + 1) b"
  by (simp add: stepsToward_def upto_rec1)

lemma stepsToward_down: "b < a \<Longrightarrow> stepsToward a b = (a - 1) # stepsToward (a - 1) b"
proof -
  assume "b < a"
  then have "[b .. a - 1] = [b .. a - 1 - 1] @ [a - 1]" by (simp add: upto_rec2)
  then show ?thesis using \<open>b < a\<close> by (simp add: stepsToward_def)
qed

lemma occlusionWalk_count:
  "occlusionWalk brd sx sy tx ty opp x y blocks =
     blocks + length (filter (\<lambda>(px, py). (px, py) \<noteq> (sx, sy) \<and> (px, py) \<noteq> (tx, ty)
                                 \<and> brd ! nat py ! nat px = opp)
                       (manhattanPath x y tx ty))"
proof (induction brd sx sy tx ty opp x y blocks rule: occlusionWalk.induct)
  case (1 brd sx sy tx ty opp x y blocks)
  let ?P = "\<lambda>(px, py). (px, py) \<noteq> (sx, sy) \<and> (px, py) \<noteq> (tx, ty) \<and> brd ! nat py ! nat px = opp"
  show ?case
  proof (cases "x \<noteq> tx \<or> y \<noteq> ty")
    case False
    then have xy: "x = tx" "y = ty" by simp_all
    show ?thesis unfolding xy
      by (subst occlusionWalk.simps) (simp add: manhattanPath_def)
  next
    case True
    define x' where "x' = (if x \<noteq> tx then x + (if x < tx then 1 else - 1) else x)"
    define y' where "y' = (if x \<noteq> tx then y else if y \<noteq> ty then y + (if y < ty then 1 else - 1) else y)"
    have path: "manhattanPath x y tx ty = (x', y') # manhattanPath x' y' tx ty"
    proof (cases "x \<noteq> tx")
      case xt: True
      then show ?thesis
        unfolding manhattanPath_def x'_def y'_def
        by (cases "x < tx") (simp_all add: stepsToward_up stepsToward_down)
    next
      case False
      then have "y \<noteq> ty" using True by simp
      then show ?thesis using False
        unfolding manhattanPath_def x'_def y'_def
        by (cases "y < ty") (simp_all add: stepsToward_up stepsToward_down)
    qed
    have step: "occlusionWalk brd sx sy tx ty opp x y blocks =
        (if (x' = sx \<and> y' = sy) \<or> (x' = tx \<and> y' = ty)
         then occlusionWalk brd sx sy tx ty opp x' y' blocks
         else occlusionWalk brd sx sy tx ty opp x' y'
                (if brd ! nat y' ! nat x' = opp then blocks + 1 else blocks))"
      by (subst occlusionWalk.simps, simp only: True if_True Let_def x'_def y'_def)
    show ?thesis
    proof (cases "(x' = sx \<and> y' = sy) \<or> (x' = tx \<and> y' = ty)")
      case e: True
      have "occlusionWalk brd sx sy tx ty opp x y blocks = occlusionWalk brd sx sy tx ty opp x' y' blocks"
        by (simp only: step e if_True)
      also have "\<dots> = blocks + length (filter ?P (manhattanPath x' y' tx ty))"
        using "1.IH"(1)[OF True x'_def y'_def e] .
      finally show ?thesis unfolding path using e by auto
    next
      case e: False
      let ?b' = "if brd ! nat y' ! nat x' = opp then blocks + 1 else blocks"
      have "occlusionWalk brd sx sy tx ty opp x y blocks = occlusionWalk brd sx sy tx ty opp x' y' ?b'"
        by (simp only: step e if_False)
      also have "\<dots> = ?b' + length (filter ?P (manhattanPath x' y' tx ty))"
        using "1.IH"(2)[OF True x'_def y'_def e] .
      finally show ?thesis unfolding path using e by auto
    qed
  qed
qed

lemma occlusionPenalty_blockCount:
  "occlusionPenalty brd sz sx sy tx ty c f
   = f ^ blockCount brd sx sy tx ty (if c = CHR ''B'' then CHR ''W'' else CHR ''B'')"
  unfolding occlusionPenalty_def Let_def occlusionWalk_count blockCount_def
  by simp


text \<open>A square grid of side \<open>n\<close>.\<close>

definition gridShape :: "nat \<Rightarrow> 'a list list \<Rightarrow> bool" where
  "gridShape n g \<longleftrightarrow> length g = n \<and> (\<forall>row \<in> set g. length row = n)"

lemma gridShape_nth: "gridShape n g \<Longrightarrow> i < n \<Longrightarrow> length (g ! i) = n"
  by (simp add: gridShape_def)

lemma addAt_shape:
  assumes "gridShape n g"
  shows "gridShape n (addAt g x y v)"
proof (cases "nat y < length g")
  case True
  then have "length (g ! nat y) = n" using assms by (simp add: gridShape_def)
  then have "\<forall>row \<in> insert ((g ! nat y)[nat x := g ! nat y ! nat x + v]) (set g). length row = n"
    using assms by (simp add: gridShape_def)
  then show ?thesis
    using assms set_update_subset_insert[of g "nat y" "(g ! nat y)[nat x := g ! nat y ! nat x + v]"]
    unfolding gridShape_def addAt_def by auto
next
  case False
  then show ?thesis using assms by (simp add: addAt_def list_update_beyond)
qed

lemma addAt_nth:
  assumes "gridShape n g" "0 \<le> x" "nat x < n" "0 \<le> y" "nat y < n"
    "0 \<le> x'" "nat x' < n" "0 \<le> y'" "nat y' < n"
  shows "addAt g x y v ! nat y' ! nat x' =
         (if x' = x \<and> y' = y then g ! nat y ! nat x + v else g ! nat y' ! nat x')"
proof -
  have l: "length g = n" "length (g ! nat y) = n" using assms by (simp_all add: gridShape_def)
  show ?thesis
    unfolding addAt_def using assms l
    by (auto simp: nth_list_update nat_eq_iff)
qed

definition cellStep :: "(int \<Rightarrow> int \<Rightarrow> bool) \<Rightarrow> (int \<Rightarrow> int \<Rightarrow> real) \<Rightarrow> int \<Rightarrow> int \<Rightarrow>
    real list list \<Rightarrow> real list list" where
  "cellStep cond v y x g = (if cond x y then addAt g x y (v x y) else g)"

lemma row_fold:
  assumes "gridShape n g" "distinct xs" "\<forall>x \<in> set xs. 0 \<le> x \<and> nat x < n" "0 \<le> y" "nat y < n"
    "0 \<le> tx" "nat tx < n" "0 \<le> ty" "nat ty < n"
  shows "gridShape n (fold (cellStep cond v y) xs g) \<and>
         fold (cellStep cond v y) xs g ! nat ty ! nat tx =
           g ! nat ty ! nat tx + (if ty = y \<and> tx \<in> set xs \<and> cond tx y then v tx y else 0)"
  using assms(1,2,3)
proof (induction xs arbitrary: g)
  case Nil
  then show ?case by simp
next
  case (Cons a xs)
  have a: "0 \<le> a" "nat a < n" using Cons.prems by auto
  have sh: "gridShape n (cellStep cond v y a g)"
    using Cons.prems(1) by (simp add: cellStep_def addAt_shape)
  have val: "cellStep cond v y a g ! nat ty ! nat tx =
       g ! nat ty ! nat tx + (if ty = y \<and> tx = a \<and> cond a y then v a y else 0)"
    unfolding cellStep_def
    using addAt_nth[OF Cons.prems(1) a assms(4,5) assms(6,7,8,9), of "v a y"] by auto
  from Cons.IH[OF sh] Cons.prems have
    "gridShape n (fold (cellStep cond v y) xs (cellStep cond v y a g))"
    "fold (cellStep cond v y) xs (cellStep cond v y a g) ! nat ty ! nat tx =
       cellStep cond v y a g ! nat ty ! nat tx
       + (if ty = y \<and> tx \<in> set xs \<and> cond tx y then v tx y else 0)"
    by auto
  then show ?case using val Cons.prems(2) by auto
qed

lemma box_fold:
  assumes "gridShape n g" "distinct xs" "\<forall>x \<in> set xs. 0 \<le> x \<and> nat x < n"
    "distinct ys" "\<forall>y \<in> set ys. 0 \<le> y \<and> nat y < n"
    "0 \<le> tx" "nat tx < n" "0 \<le> ty" "nat ty < n"
  shows "gridShape n (fold (\<lambda>y. fold (cellStep cond v y) xs) ys g) \<and>
         fold (\<lambda>y. fold (cellStep cond v y) xs) ys g ! nat ty ! nat tx =
           g ! nat ty ! nat tx + (if ty \<in> set ys \<and> tx \<in> set xs \<and> cond tx ty then v tx ty else 0)"
  using assms(1,4,5)
proof (induction ys arbitrary: g)
  case Nil
  then show ?case by simp
next
  case (Cons a ys)
  have a: "0 \<le> a" "nat a < n" using Cons.prems by auto
  note r = row_fold[OF Cons.prems(1) assms(2,3) a assms(6,7,8,9), of cond v]
  from Cons.IH[OF r[THEN conjunct1]] Cons.prems have
    "gridShape n (fold (\<lambda>y. fold (cellStep cond v y) xs) ys (fold (cellStep cond v a) xs g))"
    "fold (\<lambda>y. fold (cellStep cond v y) xs) ys (fold (cellStep cond v a) xs g) ! nat ty ! nat tx =
       fold (cellStep cond v a) xs g ! nat ty ! nat tx
       + (if ty \<in> set ys \<and> tx \<in> set xs \<and> cond tx ty then v tx ty else 0)"
    by auto
  then show ?case using r[THEN conjunct2] Cons.prems(2) by auto
qed

lemma fold_pair_fst:
  assumes "\<And>x a b. f x (a, b) = (g x a, b)"
  shows "fold f xs (a, b) = (fold g xs a, b)"
  by (induction xs arbitrary: a) (simp_all add: assms)

lemma fold_pair_snd:
  assumes "\<And>x a b. f x (a, b) = (a, g x b)"
  shows "fold f xs (a, b) = (a, fold g xs b)"
  by (induction xs arbitrary: b) (simp_all add: assms)

text \<open>What one stone contributes at a target cell.\<close>

definition contributionOf ::
  "InfluenceParams \<Rightarrow> Cell list list \<Rightarrow> int \<times> int \<times> Cell \<Rightarrow> int \<Rightarrow> int \<Rightarrow> real" where
  "contributionOf params brd s tx ty =
     (case s of (sx, sy, sc) \<Rightarrow>
        stoneStrength params * decay params ^ nat (\<bar>sx - tx\<bar> + \<bar>sy - ty\<bar>)
        * occlusionFactor params
            ^ blockCount brd sx sy tx ty (if sc = CHR ''B'' then CHR ''W'' else CHR ''B''))"

lemma manhattan_abs: "manhattan ax ay bx by = \<bar>ax - bx\<bar> + \<bar>ay - by\<bar>"
  by (simp add: manhattan_def Let_def)

lemma accumulateStone_cellStep:
  "accumulateStone params brd sz maxD (sx, sy, sc) (bl, wh) =
     (let xs = [max 0 (sx - maxD) .. min (sz - 1) (sx + maxD)];
          ys = [max 0 (sy - maxD) .. min (sz - 1) (sy + maxD)];
          cond = (\<lambda>x y. \<bar>sx - x\<bar> + \<bar>sy - y\<bar> \<le> maxD);
          v = contributionOf params brd (sx, sy, sc)
      in if sc = CHR ''B'' then (fold (\<lambda>y. fold (cellStep cond v y) xs) ys bl, wh)
         else (bl, fold (\<lambda>y. fold (cellStep cond v y) xs) ys wh))"
proof (cases "sc = CHR ''B''")
  case True
  let ?cond = "\<lambda>x y. \<bar>sx - x\<bar> + \<bar>sy - y\<bar> \<le> maxD"
  let ?v = "contributionOf params brd (sx, sy, sc)"
  let ?f = "\<lambda>y x (bl, wh).
                   let d = manhattan sx sy x y in
                   if d > maxD then (bl, wh)
                   else
                     let base = stoneStrength params * decay params ^ nat d;
                         occ = occlusionPenalty brd sz sx sy x y sc (occlusionFactor params);
                         contribution = base * occ
                     in if sc = CHR ''B'' then (addAt bl x y contribution, wh)
                        else (bl, addAt wh x y contribution)"
  have inner: "?f y x (a, b) = (cellStep ?cond ?v y x a, b)" for y x a b
    using True
    by (simp add: cellStep_def contributionOf_def manhattan_abs Let_def occlusionPenalty_blockCount
        not_less)
  have row: "fold (?f y) xs (a, b) = (fold (cellStep ?cond ?v y) xs a, b)" for y xs a b
    by (rule fold_pair_fst) (rule inner)
  have main: "fold (\<lambda>y. fold (?f y) xs) ys (a, b) = (fold (\<lambda>y. fold (cellStep ?cond ?v y) xs) ys a, b)"
    for xs ys a b
    by (rule fold_pair_fst) (rule row)
  show ?thesis unfolding accumulateStone_def prod.case Let_def
    by (simp only: main[unfolded Let_def]) (simp add: True)
next
  case False
  let ?cond = "\<lambda>x y. \<bar>sx - x\<bar> + \<bar>sy - y\<bar> \<le> maxD"
  let ?v = "contributionOf params brd (sx, sy, sc)"
  let ?f = "\<lambda>y x (bl, wh).
                   let d = manhattan sx sy x y in
                   if d > maxD then (bl, wh)
                   else
                     let base = stoneStrength params * decay params ^ nat d;
                         occ = occlusionPenalty brd sz sx sy x y sc (occlusionFactor params);
                         contribution = base * occ
                     in if sc = CHR ''B'' then (addAt bl x y contribution, wh)
                        else (bl, addAt wh x y contribution)"
  have inner: "?f y x (a, b) = (a, cellStep ?cond ?v y x b)" for y x a b
    using False
    by (simp add: cellStep_def contributionOf_def manhattan_abs Let_def occlusionPenalty_blockCount
        not_less)
  have row: "fold (?f y) xs (a, b) = (a, fold (cellStep ?cond ?v y) xs b)" for y xs a b
    by (rule fold_pair_snd) (rule inner)
  have main: "fold (\<lambda>y. fold (?f y) xs) ys (a, b) = (a, fold (\<lambda>y. fold (cellStep ?cond ?v y) xs) ys b)"
    for xs ys a b
    by (rule fold_pair_snd) (rule row)
  show ?thesis unfolding accumulateStone_def prod.case Let_def
    by (simp only: main[unfolded Let_def]) (simp add: False)
qed


lemma accumulateStone_at:
  assumes sh: "gridShape (nat sz) bl" "gridShape (nat sz) wh"
    and t: "0 \<le> tx" "tx < sz" "0 \<le> ty" "ty < sz"
  shows "gridShape (nat sz) (fst (accumulateStone params brd sz maxD (sx, sy, sc) (bl, wh))) \<and>
         gridShape (nat sz) (snd (accumulateStone params brd sz maxD (sx, sy, sc) (bl, wh))) \<and>
         fst (accumulateStone params brd sz maxD (sx, sy, sc) (bl, wh)) ! nat ty ! nat tx =
           bl ! nat ty ! nat tx
           + (if sc = CHR ''B'' \<and> \<bar>sx - tx\<bar> + \<bar>sy - ty\<bar> \<le> maxD
              then contributionOf params brd (sx, sy, sc) tx ty else 0) \<and>
         snd (accumulateStone params brd sz maxD (sx, sy, sc) (bl, wh)) ! nat ty ! nat tx =
           wh ! nat ty ! nat tx
           + (if sc \<noteq> CHR ''B'' \<and> \<bar>sx - tx\<bar> + \<bar>sy - ty\<bar> \<le> maxD
              then contributionOf params brd (sx, sy, sc) tx ty else 0)"
proof -
  let ?xs = "[max 0 (sx - maxD) .. min (sz - 1) (sx + maxD)]"
  let ?ys = "[max 0 (sy - maxD) .. min (sz - 1) (sy + maxD)]"
  let ?cond = "\<lambda>x y. \<bar>sx - x\<bar> + \<bar>sy - y\<bar> \<le> maxD"
  let ?v = "contributionOf params brd (sx, sy, sc)"
  have xs: "distinct ?xs" "\<forall>x \<in> set ?xs. 0 \<le> x \<and> nat x < nat sz" by auto
  have ys: "distinct ?ys" "\<forall>y \<in> set ?ys. 0 \<le> y \<and> nat y < nat sz" by auto
  have tn: "nat tx < nat sz" "nat ty < nat sz" using t by auto
  have inbox: "(ty \<in> set ?ys \<and> tx \<in> set ?xs \<and> ?cond tx ty) \<longleftrightarrow> ?cond tx ty"
    using t by auto
  note B = box_fold[OF sh(1) xs ys t(1) tn(1) t(3) tn(2), of ?cond ?v, unfolded inbox]
  note W = box_fold[OF sh(2) xs ys t(1) tn(1) t(3) tn(2), of ?cond ?v, unfolded inbox]
  show ?thesis
  proof (cases "sc = CHR ''B''")
    case True
    then show ?thesis
      unfolding accumulateStone_cellStep Let_def using B sh(2) by simp
  next
    case False
    then show ?thesis
      unfolding accumulateStone_cellStep Let_def using W sh(1) by simp
  qed
qed

lemma accumulate_all:
  assumes sh: "gridShape (nat sz) bl" "gridShape (nat sz) wh"
    and t: "0 \<le> tx" "tx < sz" "0 \<le> ty" "ty < sz"
  shows "gridShape (nat sz) (fst (fold (accumulateStone params brd sz maxD) sts (bl, wh))) \<and>
         gridShape (nat sz) (snd (fold (accumulateStone params brd sz maxD) sts (bl, wh))) \<and>
         fst (fold (accumulateStone params brd sz maxD) sts (bl, wh)) ! nat ty ! nat tx =
           bl ! nat ty ! nat tx
           + (\<Sum>(sx, sy, sc) \<leftarrow> sts.
                if sc = CHR ''B'' \<and> \<bar>sx - tx\<bar> + \<bar>sy - ty\<bar> \<le> maxD
                then contributionOf params brd (sx, sy, sc) tx ty else 0) \<and>
         snd (fold (accumulateStone params brd sz maxD) sts (bl, wh)) ! nat ty ! nat tx =
           wh ! nat ty ! nat tx
           + (\<Sum>(sx, sy, sc) \<leftarrow> sts.
                if sc \<noteq> CHR ''B'' \<and> \<bar>sx - tx\<bar> + \<bar>sy - ty\<bar> \<le> maxD
                then contributionOf params brd (sx, sy, sc) tx ty else 0)"
  using sh
proof (induction sts arbitrary: bl wh)
  case Nil
  then show ?case by simp
next
  case (Cons s sts)
  obtain sx sy sc where s: "s = (sx, sy, sc)" by (cases s) auto
  let ?r = "accumulateStone params brd sz maxD (sx, sy, sc) (bl, wh)"
  note one = accumulateStone_at[OF Cons.prems t, of params brd maxD sx sy sc]
  have r: "?r = (fst ?r, snd ?r)" by simp
  note ih = Cons.IH[of "fst ?r" "snd ?r", OF one[THEN conjunct1] one[THEN conjunct2, THEN conjunct1]]
  show ?case
    unfolding s fold_simps using ih one
    by (simp add: algebra_simps)
qed

lemma firstError_None: "firstError check xs = None \<longleftrightarrow> (\<forall>x \<in> set xs. check x = None)"
  by (induction xs) (auto split: option.splits)

lemma assertBoard_None:
  assumes "assertBoard input = None"
  shows "int (length (board input)) = bsize input"
    and "\<And>y. 0 \<le> y \<Longrightarrow> y < bsize input \<Longrightarrow> int (length (board input ! nat y)) = bsize input"
    and "\<And>x y. 0 \<le> y \<Longrightarrow> y < bsize input \<Longrightarrow> 0 \<le> x \<Longrightarrow> x < bsize input \<Longrightarrow>
           board input ! nat y ! nat x \<in> {CHR ''B'', CHR ''W'', CHR ''.''}"
proof -
  show l: "int (length (board input)) = bsize input"
    using assms unfolding assertBoard_def by (auto split: if_splits)
  have rows: "\<forall>y \<in> set [0 .. bsize input - 1].
          (if int (length (board input ! nat y)) \<noteq> bsize input then Some (BoardWidthError y)
             else firstError (\<lambda>x.
                    let c = board input ! nat y ! nat x in
                    if c \<noteq> CHR ''B'' \<and> c \<noteq> CHR ''W'' \<and> c \<noteq> CHR ''.''
                    then Some (InvalidCellError x y) else None)
                  [0 .. bsize input - 1]) = None"
    using assms l unfolding assertBoard_def firstError_None[symmetric] by simp
  show w: "int (length (board input ! nat y)) = bsize input" if "0 \<le> y" "y < bsize input" for y
    using rows that by (auto split: if_splits)
  show "board input ! nat y ! nat x \<in> {CHR ''B'', CHR ''W'', CHR ''.''}"
    if "0 \<le> y" "y < bsize input" "0 \<le> x" "x < bsize input" for x y
  proof -
    have "firstError (\<lambda>x.
                    let c = board input ! nat y ! nat x in
                    if c \<noteq> CHR ''B'' \<and> c \<noteq> CHR ''W'' \<and> c \<noteq> CHR ''.''
                    then Some (InvalidCellError x y) else None)
                  [0 .. bsize input - 1] = None"
      using rows that(1,2) by (auto split: if_splits)
    then show ?thesis
      unfolding firstError_None using that(3,4) by (auto simp: Let_def split: if_splits)
  qed
qed

lemma gridShape_zeros: "gridShape n (replicate n (replicate n (0 :: real)))"
  by (simp add: gridShape_def)

lemma collectStones_set:
  "set (collectStones brd sz) =
     {(x, y, c). 0 \<le> x \<and> x < sz \<and> 0 \<le> y \<and> y < sz \<and> c = brd ! nat y ! nat x
                 \<and> (c = CHR ''B'' \<or> c = CHR ''W'')}"
  unfolding collectStones_def by (auto simp: Let_def split: if_splits)


lemma concat_if_filter:
  "concat (map (\<lambda>x. if P x then [f x] else []) xs) = map f (filter P xs)"
  by (induction xs) auto

lemma collectStones_distinct: "distinct (collectStones brd sz)"
proof -
  let ?P = "\<lambda>y x. brd ! nat y ! nat x = CHR ''B'' \<or> brd ! nat y ! nat x = CHR ''W''"
  have row: "concat (map (\<lambda>x. let c = brd ! nat y ! nat x in
        if c = CHR ''B'' \<or> c = CHR ''W'' then [(x, y, c)] else []) xs)
      = map (\<lambda>x. (x, y, brd ! nat y ! nat x)) (filter (?P y) xs)" for y xs
    unfolding Let_def by (rule concat_if_filter)
  have d: "distinct (concat (map (\<lambda>y. map (\<lambda>x. (x, y, brd ! nat y ! nat x)) (filter (?P y) xs)) ys))"
    if "distinct xs" "distinct ys" for xs ys :: "int list"
    using that(2)
  proof (induction ys)
    case Nil
    then show ?case by simp
  next
    case (Cons a ys)
    have "distinct (map (\<lambda>x. (x, a, brd ! nat a ! nat x)) (filter (?P a) xs))"
      using that(1) by (simp add: distinct_map inj_on_def)
    then show ?case using Cons by auto
  qed
  show ?thesis unfolding collectStones_def row by (rule d) simp_all
qed

lemma computeInfluence_Inr:
  assumes "computeInfluence input params = Inr res"
  shows "assertBoard input = None"
    and "decay params > 0 \<and> decay params < 1"
    and "occlusionFactor params \<ge> 0 \<and> occlusionFactor params \<le> 1"
    and "res = (let sz = bsize input;
                brd = board input;
                maxD = (case maxDistance params of Some m \<Rightarrow> m | None \<Rightarrow> (sz - 1) * 2);
                fields = accumulateInfluence params brd sz maxD;
                netField = netGrid (fst fields) (snd fields) sz;
                terr = territoryGrid params brd netField sz
            in \<lparr>rsize = sz, black_field = fst fields, white_field = snd fields, net = netField,
                    territory = terr, territoryCount = territoryTally brd terr sz\<rparr>)"
proof -
  show a: "assertBoard input = None"
    using assms unfolding computeInfluence_def by (cases "assertBoard input") simp_all
  show d: "decay params > 0 \<and> decay params < 1"
    using assms a unfolding computeInfluence_def
    by (cases "decay params > 0 \<and> decay params < 1") simp_all
  show f: "occlusionFactor params \<ge> 0 \<and> occlusionFactor params \<le> 1"
    using assms a d unfolding computeInfluence_def
    by (cases "occlusionFactor params \<ge> 0 \<and> occlusionFactor params \<le> 1") simp_all
  show "res = (let sz = bsize input;
                brd = board input;
                maxD = (case maxDistance params of Some m \<Rightarrow> m | None \<Rightarrow> (sz - 1) * 2);
                fields = accumulateInfluence params brd sz maxD;
                netField = netGrid (fst fields) (snd fields) sz;
                terr = territoryGrid params brd netField sz
            in \<lparr>rsize = sz, black_field = fst fields, white_field = snd fields, net = netField,
                    territory = terr, territoryCount = territoryTally brd terr sz\<rparr>)"
    using assms a d f unfolding computeInfluence_def Let_def by simp
qed

text \<open>
  Claim C5. After validation, the black field at a target cell on the board is the sum,
  over the black stones within Manhattan distance \<open>maxDistance\<close> of the target, of
  \<open>stoneStrength * decay ^ d * occlusionFactor ^ k\<close>, where \<open>d\<close> is the distance and \<open>k\<close>
  the number of white cells strictly between stone and target on the path that runs first
  along x and then along y; the white field likewise, with the colours exchanged. The
  stones are the board cells holding \<open>B\<close> or \<open>W\<close>, each counted once. (\<open>maxDistance\<close>
  defaults to twice the board size minus two.)
\<close>

theorem computeInfluence_contributions:
  assumes "computeInfluence input params = Inr res"
    and "0 \<le> tx" "tx < bsize input" "0 \<le> ty" "ty < bsize input"
    and "maxD = (case maxDistance params of Some m \<Rightarrow> m | None \<Rightarrow> (bsize input - 1) * 2)"
  shows "black_field res ! nat ty ! nat tx =
           (\<Sum>(sx, sy, sc) \<leftarrow> collectStones (board input) (bsize input).
              if sc = CHR ''B'' \<and> \<bar>sx - tx\<bar> + \<bar>sy - ty\<bar> \<le> maxD
              then stoneStrength params * decay params ^ nat (\<bar>sx - tx\<bar> + \<bar>sy - ty\<bar>)
                   * occlusionFactor params ^ blockCount (board input) sx sy tx ty (CHR ''W'')
              else 0)
       \<and> white_field res ! nat ty ! nat tx =
           (\<Sum>(sx, sy, sc) \<leftarrow> collectStones (board input) (bsize input).
              if sc = CHR ''W'' \<and> \<bar>sx - tx\<bar> + \<bar>sy - ty\<bar> \<le> maxD
              then stoneStrength params * decay params ^ nat (\<bar>sx - tx\<bar> + \<bar>sy - ty\<bar>)
                   * occlusionFactor params ^ blockCount (board input) sx sy tx ty (CHR ''B'')
              else 0)
       \<and> distinct (collectStones (board input) (bsize input))
       \<and> set (collectStones (board input) (bsize input)) =
           {(x, y, c). 0 \<le> x \<and> x < bsize input \<and> 0 \<le> y \<and> y < bsize input
                       \<and> c = board input ! nat y ! nat x \<and> (c = CHR ''B'' \<or> c = CHR ''W'')}"
proof -
  let ?sz = "bsize input" and ?brd = "board input"
  let ?zeros = "replicate (nat ?sz) (replicate (nat ?sz) (0 :: real))"
  let ?sts = "collectStones ?brd ?sz"
  let ?acc = "fold (accumulateStone params ?brd ?sz maxD) ?sts (?zeros, ?zeros)"
  have bl: "black_field res = fst ?acc" and wh: "white_field res = snd ?acc"
    unfolding computeInfluence_Inr(4)[OF assms(1)] assms(6) Let_def accumulateInfluence_def
    by simp_all
  note A = accumulate_all[OF gridShape_zeros gridShape_zeros assms(2-5), of params ?brd maxD ?sts]
  have z: "?zeros ! nat ty ! nat tx = 0" using assms(2-5) by simp
  have B: "black_field res ! nat ty ! nat tx =
           (\<Sum>(sx, sy, sc) \<leftarrow> ?sts.
              if sc = CHR ''B'' \<and> \<bar>sx - tx\<bar> + \<bar>sy - ty\<bar> \<le> maxD
              then contributionOf params ?brd (sx, sy, sc) tx ty else 0)"
    unfolding bl using A z by simp
  have W: "white_field res ! nat ty ! nat tx =
           (\<Sum>(sx, sy, sc) \<leftarrow> ?sts.
              if sc \<noteq> CHR ''B'' \<and> \<bar>sx - tx\<bar> + \<bar>sy - ty\<bar> \<le> maxD
              then contributionOf params ?brd (sx, sy, sc) tx ty else 0)"
    unfolding wh using A z by simp
  have Beq: "map (\<lambda>(sx, sy, sc).
              if sc = CHR ''B'' \<and> \<bar>sx - tx\<bar> + \<bar>sy - ty\<bar> \<le> maxD
              then contributionOf params ?brd (sx, sy, sc) tx ty else 0) ?sts
        = map (\<lambda>(sx, sy, sc).
              if sc = CHR ''B'' \<and> \<bar>sx - tx\<bar> + \<bar>sy - ty\<bar> \<le> maxD
              then stoneStrength params * decay params ^ nat (\<bar>sx - tx\<bar> + \<bar>sy - ty\<bar>)
                   * occlusionFactor params ^ blockCount ?brd sx sy tx ty (CHR ''W'')
              else 0) ?sts"
    by (rule map_cong) (auto simp: contributionOf_def)
  have Weq: "map (\<lambda>(sx, sy, sc).
              if sc \<noteq> CHR ''B'' \<and> \<bar>sx - tx\<bar> + \<bar>sy - ty\<bar> \<le> maxD
              then contributionOf params ?brd (sx, sy, sc) tx ty else 0) ?sts
        = map (\<lambda>(sx, sy, sc).
              if sc = CHR ''W'' \<and> \<bar>sx - tx\<bar> + \<bar>sy - ty\<bar> \<le> maxD
              then stoneStrength params * decay params ^ nat (\<bar>sx - tx\<bar> + \<bar>sy - ty\<bar>)
                   * occlusionFactor params ^ blockCount ?brd sx sy tx ty (CHR ''B'')
              else 0) ?sts"
    by (rule map_cong) (auto simp: contributionOf_def collectStones_set)
  show ?thesis
    using B W unfolding Beq Weq
    using collectStones_distinct[of ?brd ?sz] collectStones_set[of ?brd ?sz] by simp
qed

definition blocked3 :: BoardInput where
  "blocked3 = \<lparr>bsize = 3, board = [[CHR ''B'', CHR ''W'', CHR ''.''],
                                    [CHR ''.'', CHR ''.'', CHR ''.''],
                                    [CHR ''.'', CHR ''.'', CHR ''.'']]\<rparr>"

theorem computeInfluence_contributions_witness:
  "black_field (projr (computeInfluence blocked3 DEFAULT_INFLUENCE_PARAMS)) ! 0 ! 2 = 10 * 0.82 ^ 2 * 0.35
   \<and> white_field (projr (computeInfluence blocked3 DEFAULT_INFLUENCE_PARAMS)) ! 0 ! 2 = 10 * 0.82"
proof -
  have "\<not> isl (computeInfluence blocked3 DEFAULT_INFLUENCE_PARAMS)" by code_simp
  then have r: "computeInfluence blocked3 DEFAULT_INFLUENCE_PARAMS
                = Inr (projr (computeInfluence blocked3 DEFAULT_INFLUENCE_PARAMS))"
    by simp
  have m: "(12 :: int) = (case maxDistance DEFAULT_INFLUENCE_PARAMS of Some m \<Rightarrow> m
                           | None \<Rightarrow> (bsize blocked3 - 1) * 2)"
    by (simp add: DEFAULT_INFLUENCE_PARAMS_def)
  have st: "collectStones (board blocked3) (bsize blocked3) = [(0, 0, CHR ''B''), (1, 0, CHR ''W'')]"
    by code_simp
  have k1: "blockCount (board blocked3) 0 0 2 0 (CHR ''W'') = 1" by code_simp
  have k2: "blockCount (board blocked3) 1 0 2 0 (CHR ''B'') = 0" by code_simp
  have t: "(0 :: int) \<le> 2" "2 < bsize blocked3" "(0 :: int) \<le> 0" "0 < bsize blocked3"
    by (simp_all add: blocked3_def)
  from computeInfluence_contributions[OF r t m]
  show ?thesis
    unfolding st by (simp add: k1 k2 DEFAULT_INFLUENCE_PARAMS_def)
qed

section \<open>Influence on an empty board, and on boards that are not square\<close>

lemma grid_const:
  assumes "\<And>y x. y \<in> set ys \<Longrightarrow> x \<in> set xs \<Longrightarrow> f y x = c"
  shows "map (\<lambda>y. map (\<lambda>x. f y x) xs) ys = replicate (length ys) (replicate (length xs) c)"
proof -
  have "map (\<lambda>x. f y x) xs = replicate (length xs) c" if "y \<in> set ys" for y
    using assms[OF that] by (simp add: map_replicate_const[symmetric] cong: map_cong)
  then have "map (\<lambda>y. map (\<lambda>x. f y x) xs) ys = map (\<lambda>y. replicate (length xs) c) ys"
    by (simp cong: map_cong)
  then show ?thesis by (simp add: map_replicate_const)
qed

lemma concat_singletons: "concat (map (\<lambda>x. [c]) xs) = replicate (length xs) c"
  by (induction xs) auto

lemma concat_replicates: "concat (map (\<lambda>y. replicate k c) ys) = replicate (length ys * k) c"
  by (induction ys) (auto simp: replicate_add)

lemma length_upto0: "0 \<le> n \<Longrightarrow> length [0 .. n - 1] = nat n"
  by simp

text \<open>
  Claim C9 (as amended). For a validated board without stones and accepted parameters
  whose territory threshold is positive, both influence grids and the net grid are zero
  everywhere, every cell of the territory grid is neutral, and the tally counts every
  cell as neutral.
\<close>

theorem computeInfluence_empty_board:
  assumes v: "assertBoard input = None"
    and e: "\<forall>row \<in> set (board input). \<forall>c \<in> set row. c \<noteq> CHR ''B'' \<and> c \<noteq> CHR ''W''"
    and d: "0 < decay params" "decay params < 1"
    and f: "0 \<le> occlusionFactor params" "occlusionFactor params \<le> 1"
    and t: "0 < territoryThreshold params"
  shows "computeInfluence input params =
           Inr \<lparr>rsize = bsize input,
                black_field = replicate (nat (bsize input)) (replicate (nat (bsize input)) 0),
                white_field = replicate (nat (bsize input)) (replicate (nat (bsize input)) 0),
                net = replicate (nat (bsize input)) (replicate (nat (bsize input)) 0),
                territory = replicate (nat (bsize input)) (replicate (nat (bsize input)) (CHR ''.'')),
                territoryCount = (0, 0, nat (bsize input) * nat (bsize input))\<rparr>"
proof -
  let ?sz = "bsize input" and ?brd = "board input"
  let ?n = "nat ?sz"
  let ?zeros = "replicate ?n (replicate ?n (0 :: real))"
  let ?dots = "replicate ?n (replicate ?n (CHR ''.''))"
  note ab = assertBoard_None[OF v]
  have sz0: "0 \<le> ?sz" using ab(1) by linarith
  have len: "length [0 .. ?sz - 1] = ?n" using sz0 by simp
  have cell: "?brd ! nat y ! nat x = CHR ''.''" if "y \<in> set [0 .. ?sz - 1]" "x \<in> set [0 .. ?sz - 1]" for y x
  proof -
    have r: "0 \<le> y" "y < ?sz" "0 \<le> x" "x < ?sz" using that by auto
    have "nat y < length ?brd" using ab(1) r by linarith
    then have row: "?brd ! nat y \<in> set ?brd" by simp
    have "nat x < length (?brd ! nat y)" using ab(2)[OF r(1,2)] r by linarith
    then have "?brd ! nat y ! nat x \<in> set (?brd ! nat y)" by simp
    then have "?brd ! nat y ! nat x \<noteq> CHR ''B'' \<and> ?brd ! nat y ! nat x \<noteq> CHR ''W''"
      using e row by blast
    then show ?thesis using ab(3)[OF r] by auto
  qed
  have stones: "collectStones ?brd ?sz = []"
    unfolding collectStones_def using cell by (simp add: Let_def)
  have acc: "accumulateInfluence params ?brd ?sz maxD = (?zeros, ?zeros)" for maxD
    unfolding accumulateInfluence_def stones by simp
  have z: "?zeros ! nat y ! nat x = 0" if "y \<in> set [0 .. ?sz - 1]" "x \<in> set [0 .. ?sz - 1]" for y x
    using that by simp
  have net: "netGrid ?zeros ?zeros ?sz = ?zeros"
    unfolding netGrid_def using grid_const[of "[0 .. ?sz - 1]" "[0 .. ?sz - 1]"
        "\<lambda>y x. ?zeros ! nat y ! nat x - ?zeros ! nat y ! nat x" 0] z
    unfolding len by simp
  have tc: "territoryCell params (CHR ''.'') 0 = CHR ''.''"
    using t by (simp add: territoryCell_def)
  have terr: "territoryGrid params ?brd ?zeros ?sz = ?dots"
    unfolding territoryGrid_def using grid_const[of "[0 .. ?sz - 1]" "[0 .. ?sz - 1]"
        "\<lambda>y x. territoryCell params (?brd ! nat y ! nat x) (?zeros ! nat y ! nat x)" "CHR ''.''"]
      z cell tc
    unfolding len by simp
  have d2: "?dots ! nat y ! nat x = CHR ''.''" if "y \<in> set [0 .. ?sz - 1]" "x \<in> set [0 .. ?sz - 1]" for y x
    using that by simp
  have em: "concat (map (\<lambda>y. concat (map (\<lambda>x.
                      if ?brd ! nat y ! nat x = CHR ''B'' \<or> ?brd ! nat y ! nat x = CHR ''W''
                      then [] else [?dots ! nat y ! nat x]) [0 .. ?sz - 1])) [0 .. ?sz - 1])
            = replicate (?n * ?n) (CHR ''.'')"
  proof -
    have "map (\<lambda>y. concat (map (\<lambda>x.
                      if ?brd ! nat y ! nat x = CHR ''B'' \<or> ?brd ! nat y ! nat x = CHR ''W''
                      then [] else [?dots ! nat y ! nat x]) [0 .. ?sz - 1])) [0 .. ?sz - 1]
          = map (\<lambda>y. replicate ?n (CHR ''.'')) [0 .. ?sz - 1]"
    proof (rule map_cong[OF refl])
      fix y assume y: "y \<in> set [0 .. ?sz - 1]"
      have "map (\<lambda>x. if ?brd ! nat y ! nat x = CHR ''B'' \<or> ?brd ! nat y ! nat x = CHR ''W''
                      then [] else [?dots ! nat y ! nat x]) [0 .. ?sz - 1]
            = map (\<lambda>x. [CHR ''.'']) [0 .. ?sz - 1]"
        by (rule map_cong[OF refl]) (use y cell d2 in auto)
      then have "concat (map (\<lambda>x.
                      if ?brd ! nat y ! nat x = CHR ''B'' \<or> ?brd ! nat y ! nat x = CHR ''W''
                      then [] else [?dots ! nat y ! nat x]) [0 .. ?sz - 1])
               = concat (map (\<lambda>x. [CHR ''.'']) [0 .. ?sz - 1])"
        by (rule arg_cong)
      then show "concat (map (\<lambda>x.
                      if ?brd ! nat y ! nat x = CHR ''B'' \<or> ?brd ! nat y ! nat x = CHR ''W''
                      then [] else [?dots ! nat y ! nat x]) [0 .. ?sz - 1]) = replicate ?n (CHR ''.'')"
        unfolding concat_singletons len .
    qed
    then have "concat (map (\<lambda>y. concat (map (\<lambda>x.
                      if ?brd ! nat y ! nat x = CHR ''B'' \<or> ?brd ! nat y ! nat x = CHR ''W''
                      then [] else [?dots ! nat y ! nat x]) [0 .. ?sz - 1])) [0 .. ?sz - 1])
          = concat (map (\<lambda>y. replicate ?n (CHR ''.'')) [0 .. ?sz - 1])"
      by (rule arg_cong)
    then show ?thesis unfolding concat_replicates len .
  qed
  have tally: "territoryTally ?brd ?dots ?sz = (0, 0, ?n * ?n)"
    unfolding territoryTally_def em by simp
  show ?thesis
    unfolding computeInfluence_def v using d f
    by (simp add: Let_def acc net terr tally)
qed

text \<open>
  Claim C9 as stated fails: validation accepts any territory threshold, and with a
  threshold of zero the net influence 0 of an empty cell reaches it, so the cell is
  labelled black.
\<close>

theorem computeInfluence_empty_counterexample:
  "computeInfluence \<lparr>bsize = 1, board = [[CHR ''.'']]\<rparr>
     \<lparr>stoneStrength = 10, decay = 1 / 2, maxDistance = None, occlusionFactor = 1 / 2,
      territoryThreshold = 0\<rparr>
   = Inr \<lparr>rsize = 1, black_field = [[0]], white_field = [[0]], net = [[0]], territory = [[CHR ''B'']],
          territoryCount = (1, 0, 0)\<rparr>"
  by code_simp

definition empty2 :: BoardInput where
  "empty2 = \<lparr>bsize = 2, board = [[CHR ''.'', CHR ''.''], [CHR ''.'', CHR ''.'']]\<rparr>"

theorem computeInfluence_empty_board_witness:
  "computeInfluence empty2 DEFAULT_INFLUENCE_PARAMS =
     Inr \<lparr>rsize = 2, black_field = [[0, 0], [0, 0]], white_field = [[0, 0], [0, 0]], net = [[0, 0], [0, 0]],
          territory = [[CHR ''.'', CHR ''.''], [CHR ''.'', CHR ''.'']], territoryCount = (0, 0, 4)\<rparr>"
proof -
  have v: "assertBoard empty2 = None" by code_simp
  have e: "\<forall>row \<in> set (board empty2). \<forall>c \<in> set row. c \<noteq> CHR ''B'' \<and> c \<noteq> CHR ''W''"
    by (simp add: empty2_def)
  have p: "0 < decay DEFAULT_INFLUENCE_PARAMS" "decay DEFAULT_INFLUENCE_PARAMS < 1"
    "0 \<le> occlusionFactor DEFAULT_INFLUENCE_PARAMS" "occlusionFactor DEFAULT_INFLUENCE_PARAMS \<le> 1"
    "0 < territoryThreshold DEFAULT_INFLUENCE_PARAMS"
    by (simp_all add: DEFAULT_INFLUENCE_PARAMS_def)
  have n: "nat (bsize empty2) = 2" by (simp add: empty2_def)
  from computeInfluence_empty_board[OF v e p] show ?thesis
    unfolding n by (simp add: empty2_def numeral_2_eq_2)
qed

text \<open>
  Claim C10. On a board whose height differs from its width the influence calculation of
  the adapter fails with the board-height error of \<open>assertBoard\<close>: the adapter declares
  the width as the size and hands over \<open>height\<close> rows.
\<close>

theorem calculateInfluence_non_square:
  assumes "0 \<le> height b" and "height b \<noteq> width b"
  shows "calculateInfluence b = Inl BoardHeightError"
proof -
  have "int (length (board (boardToInfluenceInput b))) = height b"
    using assms(1) by (simp add: boardToInfluenceInput_def)
  moreover have "bsize (boardToInfluenceInput b) = width b"
    by (simp add: boardToInfluenceInput_def)
  ultimately have "assertBoard (boardToInfluenceInput b) = Some BoardHeightError"
    using assms(2) by (simp add: assertBoard_def)
  then show ?thesis
    by (simp add: calculateInfluence_def computeInfluence_def Let_def)
qed

theorem calculateInfluence_non_square_witness:
  "calculateInfluence (emptyBoard 3 5) = Inl BoardHeightError"
proof -
  have "0 \<le> height (emptyBoard 3 5)" "height (emptyBoard 3 5) \<noteq> width (emptyBoard 3 5)"
    by (simp_all add: emptyBoard_def)
  then show ?thesis by (rule calculateInfluence_non_square)
qed

section \<open>What the parser rejects, and what it makes of the rest\<close>

text \<open>
  What a board string says about a cell, in the terms of the format. A cell symbol is a
  black stone for \<open>B\<close> or \<open>b\<close>, a white stone for \<open>W\<close> or \<open>w\<close>, and empty for anything
  else. A bit pair is a black stone for 01, a white stone for 10, and empty for 00 and
  for the reserved pair 11.
\<close>

definition symbolStone :: "string \<Rightarrow> Stone" where
  "symbolStone s = (if s = ''B'' \<or> s = ''b'' then BLACK else if s = ''W'' \<or> s = ''w'' then WHITE else NONE)"

definition pairStone :: "int \<Rightarrow> Stone" where
  "pairStone p = (if p = 1 then BLACK else if p = 2 then WHITE else NONE)"

text \<open>
  The bit pair of a column in a row value, on a board of a given width: column 0 has the
  leftmost pair, the last column the two lowest bits. A row value that is no number has
  only empty cells.
\<close>

definition valuePair :: "int \<Rightarrow> int \<Rightarrow> int \<Rightarrow> int" where
  "valuePair v wd col = (v div 4 ^ nat (wd - 1 - col)) mod 4"

definition valueStone :: "number \<Rightarrow> int \<Rightarrow> int \<Rightarrow> Stone" where
  "valueStone v wd col = (case v of None \<Rightarrow> NONE | Some k \<Rightarrow> pairStone (valuePair k wd col))"

text \<open>
  The cell a board string gives at a row and a column, on a board of a given width. A row
  the string does not have is empty. In the format with semicolons a row holding a comma
  is a list of cell symbols, where a cell the row does not have is empty, and any other
  row is a row value; in the legacy format every row is a row value.
\<close>

definition cellRead :: "string \<Rightarrow> int \<Rightarrow> int \<Rightarrow> int \<Rightarrow> Stone" where
  "cellRead boardData wd r c =
     (if includesChar boardData (CHR '';'') then
        (let rowStrings = splitOn (CHR '';'') boardData in
         if int (length rowStrings) \<le> r then NONE
         else
           (let s = trim (rowStrings ! nat r) in
            if includesChar s (CHR '','') then
              (let cells = splitOn (CHR '','') s in
               if int (length cells) \<le> c then NONE else symbolStone (trim (cells ! nat c)))
            else valueStone (parseInt s) wd c))
      else
        (let rows = splitOn (CHR '','') boardData in
         if int (length rows) \<le> r then NONE
         else valueStone (parseInt (trim (rows ! nat r))) wd c))"

text \<open>
  The rows that the 32-bit operators of \<open>parseRowBigint\<close> read in full: every row that is
  no finite row value, and the row values of boards up to 16 wide, whose bit pairs lie
  within 32 bits; in the legacy format the value must also be below \<open>10 ^ 21\<close>, to be
  printed without an exponent. (What becomes of the other rows is the subject of the
  section on encoding.)
\<close>

definition rowInRange :: "string \<Rightarrow> int \<Rightarrow> int \<Rightarrow> bool" where
  "rowInRange boardData wd r =
     (if includesChar boardData (CHR '';'') then
        (let rowStrings = splitOn (CHR '';'') boardData in
         int (length rowStrings) \<le> r \<or>
         (let s = trim (rowStrings ! nat r) in
          includesChar s (CHR '','') \<or> parseInt s = None \<or> wd \<le> 16))
      else
        (let rows = splitOn (CHR '','') boardData in
         int (length rows) \<le> r \<or>
         (case parseInt (trim (rows ! nat r)) of
            None \<Rightarrow> True
          | Some v \<Rightarrow> wd \<le> 16 \<and> \<bar>v\<bar> < 10 ^ 21)))"

text \<open>
  A size can be allocated when its height is an integer from 0 to \<open>2 ^ 32 - 1\<close> and,
  unless the height is 0, its width is one too.
\<close>

definition allocatable :: "number \<Rightarrow> number \<Rightarrow> bool" where
  "allocatable w h =
     (case h of
        None \<Rightarrow> False
      | Some n \<Rightarrow> 0 \<le> n \<and> n < 2 ^ 32 \<and>
          (n = 0 \<or> (case w of None \<Rightarrow> False | Some m \<Rightarrow> 0 \<le> m \<and> m < 2 ^ 32)))"

text \<open>The size the parser uses: the size parameter if given and not empty, else inferred.\<close>

definition sizeGiven :: "string option \<Rightarrow> bool" where
  "sizeGiven sz = (case sz of None \<Rightarrow> False | Some s \<Rightarrow> s \<noteq> [])"

definition sizeUsed :: "string \<Rightarrow> string option \<Rightarrow> number \<times> number" where
  "sizeUsed boardData sz =
     (if sizeGiven sz then parseSize (the sz)
      else if includesChar boardData (CHR '';'') then
        (let rowStrings = splitOn (CHR '';'') boardData;
             firstRow = trim (rowStrings ! 0)
         in if includesChar firstRow (CHR '','')
            then (Some (int (length (splitOn (CHR '','') firstRow))), Some (int (length rowStrings)))
            else (Some (int (length rowStrings)), Some (int (length rowStrings))))
      else (Some (int (length (splitOn (CHR '','') boardData))),
            Some (int (length (splitOn (CHR '','') boardData)))))"

text \<open>
  The bit pair the code extracts: from the row value as a signed 32-bit integer, with the
  shift count taken modulo 32.
\<close>

definition rowPair :: "number \<Rightarrow> int \<Rightarrow> int \<Rightarrow> int" where
  "rowPair v wd col = (toInt32 v div 2 ^ nat (((wd - 1 - col) * 2) mod 32)) mod 4"

text \<open>The boards of the shape of a given board.\<close>

definition sameShape :: "Board \<Rightarrow> Board \<Rightarrow> bool" where
  "sameShape b bd \<longleftrightarrow> wf_board bd \<and> width bd = width b \<and> height bd = height b"

lemma toInt32_range: "- (2 ^ 31) \<le> toInt32 v \<and> toInt32 v < 2 ^ 31"
  by (cases v) (simp_all add: toInt32_def)

lemma toInt32_id: "- (2 ^ 31) \<le> x \<Longrightarrow> x < 2 ^ 31 \<Longrightarrow> toInt32 (Some x) = x"
  by (simp add: toInt32_def)

lemma and3_mod4: "(x :: int) AND 3 = x mod 4"
proof -
  have "x AND mask 2 = take_bit 2 x" by (simp add: take_bit_eq_mask)
  then show ?thesis by (simp add: take_bit_eq_mod mask_eq_exp_minus_1)
qed

lemma div_pow2_range:
  fixes x :: int
  assumes "- (2 ^ 31) \<le> x" "x < 2 ^ 31"
  shows "- (2 ^ 31) \<le> x div 2 ^ k \<and> x div 2 ^ k < 2 ^ 31"
proof (cases "x < 0")
  case True
  have "x div 1 \<le> x div 2 ^ k" by (rule zdiv_mono2_neg[OF True]) simp_all
  moreover have "x div 2 ^ k < 0" using True by (simp add: pos_imp_zdiv_neg_iff)
  ultimately show ?thesis using assms by simp
next
  case False
  then have "0 \<le> x div 2 ^ k" by (simp add: pos_imp_zdiv_nonneg_iff)
  moreover have "x div 2 ^ k \<le> x div 1" using False by (intro zdiv_mono2) simp_all
  ultimately show ?thesis using assms by simp
qed

lemma stoneBits_rowPair: "and32 (shiftRight32 v ((wd - 1 - col) * 2)) 3 = rowPair v wd col"
proof -
  let ?x = "toInt32 v div 2 ^ nat (((wd - 1 - col) * 2) mod 32)"
  have r: "- (2 ^ 31) \<le> ?x \<and> ?x < 2 ^ 31"
    using toInt32_range[of v] by (intro div_pow2_range) simp_all
  have "and32 ?x 3 = ?x mod 4"
    using r by (simp add: and32_def toInt32_id and3_mod4)
  then show ?thesis by (simp only: shiftRight32_def rowPair_def)
qed

lemma upto_snoc: "[0 .. int (Suc k) - 1] = [0 .. int k - 1] @ [int k]"
  using upto_rec2[of 0 "int k"] by simp

text \<open>Reading one cell after a loop that visits each index once.\<close>

lemma fold_upto_read:
  fixes upd :: "int \<Rightarrow> Board \<Rightarrow> Board"
  assumes inv: "\<And>i bd. P bd \<Longrightarrow> 0 \<le> i \<Longrightarrow> i < int n \<Longrightarrow> P (upd i bd)"
      and rd: "\<And>i bd. P bd \<Longrightarrow> 0 \<le> i \<Longrightarrow> i < int n \<Longrightarrow>
                 rd (upd i bd) = (if i = key then g (rd bd) else rd bd)"
      and b: "P b" and k: "k \<le> n"
  shows "P (fold upd [0 .. int k - 1] b) \<and>
         rd (fold upd [0 .. int k - 1] b) = (if 0 \<le> key \<and> key < int k then g (rd b) else rd b)"
  using k
proof (induction k)
  case 0
  then show ?case using b by auto
next
  case (Suc k)
  then have IH: "P (fold upd [0 .. int k - 1] b)"
    "rd (fold upd [0 .. int k - 1] b) = (if 0 \<le> key \<and> key < int k then g (rd b) else rd b)"
    by simp_all
  have kn: "int k < int n" using Suc.prems by simp
  show ?case
    by (simp only: upto_snoc fold_append comp_apply fold.simps id_apply)
       (use IH kn in \<open>auto simp: inv rd\<close>)
qed

lemma fold_upto_read_int:
  fixes upd :: "int \<Rightarrow> Board \<Rightarrow> Board"
  assumes inv: "\<And>i bd. P bd \<Longrightarrow> 0 \<le> i \<Longrightarrow> i < m \<Longrightarrow> P (upd i bd)"
      and rd: "\<And>i bd. P bd \<Longrightarrow> 0 \<le> i \<Longrightarrow> i < m \<Longrightarrow>
                 rd (upd i bd) = (if i = key then g (rd bd) else rd bd)"
      and b: "P b"
  shows "P (fold upd [0 .. m - 1] b) \<and>
         rd (fold upd [0 .. m - 1] b) = (if 0 \<le> key \<and> key < m then g (rd b) else rd b)"
proof (cases "0 \<le> m")
  case True
  then obtain n where m: "m = int n" using nonneg_int_cases by blast
  show ?thesis
    using fold_upto_read[where P = P and upd = upd and rd = rd and key = key and g = g
        and n = n and k = n and b = b] inv rd b
    unfolding m by blast
next
  case False
  then have "[0 .. m - 1] = []" by simp
  then show ?thesis using b False by auto
qed

lemma upperChar_nonempty: "upperChar c \<noteq> []"
  by (simp add: upperChar_def Let_def)

lemma char_code_iff: "c = d \<longleftrightarrow> (of_char c :: nat) = of_char d"
  by simp

lemma upperChar_single:
  assumes "(of_char d :: nat) = k" "65 \<le> k" "k \<le> 90"
  shows "upperChar c = [d] \<longleftrightarrow> (of_char c :: nat) = k \<or> (of_char c :: nat) = k + 32"
proof -
  let ?n = "of_char c :: nat"
  have n: "?n < 256" by simp
  consider (lower) "(97 \<le> ?n \<and> ?n \<le> 122) \<or> (224 \<le> ?n \<and> ?n \<le> 254 \<and> ?n \<noteq> 247)"
    | (ss) "?n = 223" | (other) "\<not> ((97 \<le> ?n \<and> ?n \<le> 122) \<or> (224 \<le> ?n \<and> ?n \<le> 254 \<and> ?n \<noteq> 247))" "?n \<noteq> 223"
    by blast
  then show ?thesis
  proof cases
    case lower
    then have u: "upperChar c = [char_of (?n - 32)]" by (simp add: upperChar_def Let_def)
    have "char_of (?n - 32) = d \<longleftrightarrow> (?n - 32) mod 256 = k"
      using assms(1) by (simp add: char_of_eq_iff take_bit_eq_mod)
    also have "\<dots> \<longleftrightarrow> ?n = k + 32" using n lower assms(2,3) by auto
    finally show ?thesis using u lower assms(2,3) by auto
  next
    case ss
    then have "upperChar c = ''SS''" by (simp add: upperChar_def Let_def)
    then show ?thesis using ss assms(2,3) by auto
  next
    case other
    then have u: "upperChar c = [c]" by (auto simp: upperChar_def Let_def)
    have "c = d \<longleftrightarrow> ?n = k" using assms(1) char_code_iff[of c d] by simp
    then show ?thesis using u other assms(2,3) by auto
  qed
qed

lemma toUpperCase_single:
  assumes "(of_char d :: nat) = k" "65 \<le> k" "k \<le> 90"
  shows "toUpperCase s = [d] \<longleftrightarrow> s = [d] \<or> s = [char_of (k + 32)]"
proof (cases s)
  case Nil
  then show ?thesis by (simp add: toUpperCase_def)
next
  case (Cons c r)
  show ?thesis
  proof (cases r)
    case Nil
    have k32: "(of_char c :: nat) = k + 32 \<longleftrightarrow> c = char_of (k + 32)"
    proof -
      have "(of_char (char_of (k + 32)) :: nat) = k + 32" using assms(3) by simp
      then show ?thesis using char_code_iff[of c "char_of (k + 32)"] by simp
    qed
    have kk: "(of_char c :: nat) = k \<longleftrightarrow> c = d" using assms(1) char_code_iff[of c d] by simp
    show ?thesis
      using upperChar_single[OF assms, of c] by (simp add: toUpperCase_def Cons Nil k32 kk)
  next
    case (Cons c' r')
    have "length (toUpperCase s) \<ge> 2"
    proof -
      have "length (upperChar c) \<ge> 1" "length (upperChar c') \<ge> 1"
        using upperChar_nonempty by (simp_all add: Suc_le_eq)
      then show ?thesis by (simp add: toUpperCase_def \<open>s = c # r\<close> Cons)
    qed
    then show ?thesis using \<open>s = c # r\<close> Cons by auto
  qed
qed

lemma cell_symbolStone:
  "(if toUpperCase s = ''B'' then BLACK else if toUpperCase s = ''W'' then WHITE else NONE) = symbolStone s"
proof -
  have b: "char_of (98 :: nat) = CHR ''b''" and w: "char_of (119 :: nat) = CHR ''w''"
    by (rule of_char_eqI[where ?'a = nat], simp)+
  have B: "toUpperCase s = ''B'' \<longleftrightarrow> s = ''B'' \<or> s = ''b''"
    using toUpperCase_single[of "CHR ''B''" 66 s] by (simp add: b)
  have W: "toUpperCase s = ''W'' \<longleftrightarrow> s = ''W'' \<or> s = ''w''"
    using toUpperCase_single[of "CHR ''W''" 87 s] by (simp add: w)
  show ?thesis unfolding B W symbolStone_def ..
qed

lemma sameShape_refl: "wf_board b \<Longrightarrow> sameShape b b"
  by (simp add: sameShape_def)

lemma sameShape_setStone: "sameShape b bd \<Longrightarrow> sameShape b (setStone bd r c s)"
  by (simp add: sameShape_def wf_setStone)

lemma sameShape_fold:
  assumes "sameShape b0 b" "\<And>x bd. sameShape b0 bd \<Longrightarrow> sameShape b0 (f x bd)"
  shows "sameShape b0 (fold f xs b)"
  using assms(1) by (induction xs arbitrary: b) (simp_all add: assms(2))

lemma sameShape_parseRowValue: "sameShape b0 b \<Longrightarrow> sameShape b0 (parseRowValue b row v wd)"
  unfolding parseRowValue_def
  by (rule sameShape_fold) (simp_all add: Let_def sameShape_setStone)

lemma sameShape_parseRowBigint: "sameShape b0 b \<Longrightarrow> sameShape b0 (parseRowBigint b row s wd)"
  by (simp add: parseRowBigint_def sameShape_parseRowValue)

lemma sameShape_parseRowCells: "sameShape b0 b \<Longrightarrow> sameShape b0 (parseRowCells b row s wd)"
  unfolding parseRowCells_def Let_def
  by (rule sameShape_fold) (simp_all add: sameShape_setStone)

lemma parseRowValue_cell:
  assumes sh: "sameShape b0 b" and row: "0 \<le> row" "row < height b0"
  shows "sameShape b0 (parseRowValue b row v (width b0)) \<and>
         getStone (parseRowValue b row v (width b0)) r c =
           (if r = row \<and> 0 \<le> c \<and> c < width b0 then pairStone (rowPair v (width b0) c)
            else getStone b r c)"
proof -
  let ?upd = "\<lambda>col bd.
        let bitPosition = (width b0 - 1 - col) * 2;
            stoneBits = and32 (shiftRight32 v bitPosition) 3;
            stone = (if stoneBits = 0 then NONE else if stoneBits = 1 then BLACK
                     else if stoneBits = 2 then WHITE else NONE)
        in setStone bd row col stone"
  let ?key = "if r = row then c else - 1"
  let ?val = "pairStone (rowPair v (width b0) c)"
  have inv: "sameShape b0 (?upd i bd)" if "sameShape b0 bd" "0 \<le> i" "i < width b0" for i bd
    using that(1) by (simp add: Let_def sameShape_setStone)
  have rd: "getStone (?upd i bd) r c = (if i = ?key then (\<lambda>_. ?val) (getStone bd r c) else getStone bd r c)"
    if "sameShape b0 bd" "0 \<le> i" "i < width b0" for i bd
  proof -
    have valid: "isValidPosition bd row i"
      using that row by (simp add: isValidPosition_def sameShape_def)
    have wfbd: "wf_board bd" using that(1) by (simp add: sameShape_def)
    have st: "(if rowPair v (width b0) i = 0 then NONE else if rowPair v (width b0) i = 1 then BLACK
                     else if rowPair v (width b0) i = 2 then WHITE else NONE) = pairStone (rowPair v (width b0) i)"
      by (simp add: pairStone_def)
    show ?thesis
      by (simp only: Let_def stoneBits_rowPair st)
         (use that(2) in \<open>auto simp: getStone_setStone[OF wfbd] valid\<close>)
  qed
  from fold_upto_read_int[where P = "sameShape b0" and upd = ?upd and rd = "\<lambda>bd. getStone bd r c"
      and key = ?key and g = "\<lambda>_. ?val" and m = "width b0" and b = b, OF inv rd sh]
  have "sameShape b0 (fold ?upd [0 .. width b0 - 1] b) \<and>
        getStone (fold ?upd [0 .. width b0 - 1] b) r c =
          (if 0 \<le> ?key \<and> ?key < width b0 then ?val else getStone b r c)"
    by simp
  then show ?thesis unfolding parseRowValue_def by auto
qed

lemma parseRowCells_cell:
  assumes sh: "sameShape b0 b" and row: "0 \<le> row" "row < height b0"
  shows "sameShape b0 (parseRowCells b row s (width b0)) \<and>
         getStone (parseRowCells b row s (width b0)) r c =
           (if r = row \<and> 0 \<le> c \<and> c < width b0 \<and> c < int (length (splitOn (CHR '','') s))
            then symbolStone (trim (splitOn (CHR '','') s ! nat c))
            else getStone b r c)"
proof -
  let ?cells = "map trim (splitOn (CHR '','') s)"
  let ?m = "min (int (length ?cells)) (width b0)"
  let ?upd = "\<lambda>col bd.
        let cell = toUpperCase (?cells ! nat col);
            stone = (if cell = ''B'' then BLACK else if cell = ''W'' then WHITE else NONE)
        in setStone bd row col stone"
  let ?key = "if r = row then c else - 1"
  let ?val = "symbolStone (?cells ! nat c)"
  have inv: "sameShape b0 (?upd i bd)" if "sameShape b0 bd" "0 \<le> i" "i < ?m" for i bd
    using that(1) by (simp add: Let_def sameShape_setStone)
  have rd: "getStone (?upd i bd) r c = (if i = ?key then (\<lambda>_. ?val) (getStone bd r c) else getStone bd r c)"
    if "sameShape b0 bd" "0 \<le> i" "i < ?m" for i bd
  proof -
    have valid: "isValidPosition bd row i"
      using that row by (simp add: isValidPosition_def sameShape_def)
    have wfbd: "wf_board bd" using that(1) by (simp add: sameShape_def)
    show ?thesis
      by (simp only: Let_def cell_symbolStone)
         (use that(2) in \<open>auto simp: getStone_setStone[OF wfbd] valid\<close>)
  qed
  from fold_upto_read_int[where P = "sameShape b0" and upd = ?upd and rd = "\<lambda>bd. getStone bd r c"
      and key = ?key and g = "\<lambda>_. ?val" and m = ?m and b = b, OF inv rd sh]
  have "sameShape b0 (fold ?upd [0 .. ?m - 1] b) \<and>
        getStone (fold ?upd [0 .. ?m - 1] b) r c =
          (if 0 \<le> ?key \<and> ?key < ?m then ?val else getStone b r c)"
    by simp
  then show ?thesis unfolding parseRowCells_def Let_def by (auto simp: nth_map)
qed

lemma getStone_emptyBoard: "getStone (emptyBoard w h) r c = NONE"
  by (simp add: getStone_def emptyBoard_def)

lemma emptyBoard_dims: "width (emptyBoard w h) = w" "height (emptyBoard w h) = h"
  by (simp_all add: emptyBoard_def)

lemma newBoard_outcome:
  "newBoard w h =
     (if \<not> allocatable w h then Thrown RangeError
      else case w of None \<Rightarrow> Rowless | Some k \<Rightarrow> Built (emptyBoard k (the h)))"
  by (auto simp: newBoard_def allocatable_def validArrayLength_def split: option.splits)

lemma allocatable_lengths:
  assumes "n < (2 :: nat) ^ 32" "m < (2 :: nat) ^ 32"
  shows "allocatable (Some (int n)) (Some (int m))"
proof -
  have "int n < 2 ^ 32" "int m < 2 ^ 32"
    using assms by (simp_all add: of_nat_less_iff[of _ "2 ^ 32", simplified])
  then show ?thesis by (simp add: allocatable_def)
qed

lemma legacy_rows_cell:
  assumes wf: "wf_board b" and m: "m \<le> height b"
      and rc: "0 \<le> r" "r < height b" "0 \<le> c" "c < width b"
  shows "sameShape b (fold (\<lambda>row bd. parseRowValue bd row (V row) (width b)) [0 .. m - 1] b) \<and>
         getStone (fold (\<lambda>row bd. parseRowValue bd row (V row) (width b)) [0 .. m - 1] b) r c =
           (if r < m then pairStone (rowPair (V r) (width b) c) else getStone b r c)"
proof -
  let ?upd = "\<lambda>row bd. parseRowValue bd row (V row) (width b)"
  let ?g = "\<lambda>old :: Stone. pairStone (rowPair (V r) (width b) c)"
  have inv: "sameShape b (?upd i bd)" if "sameShape b bd" "0 \<le> i" "i < m" for i bd
    using parseRowValue_cell[OF that(1,2), of v for v] that(3) m by simp
  have rd: "getStone (?upd i bd) r c = (if i = r then ?g (getStone bd r c) else getStone bd r c)"
    if "sameShape b bd" "0 \<le> i" "i < m" for i bd
  proof -
    have "i < height b" using that(3) m by simp
    from parseRowValue_cell[OF that(1,2) this, of "V i" r c] show ?thesis using rc by auto
  qed
  from fold_upto_read_int[where P = "sameShape b" and upd = ?upd and rd = "\<lambda>bd. getStone bd r c"
      and key = r and g = ?g and m = m and b = b, OF inv rd sameShape_refl[OF wf]]
  show ?thesis using rc by simp
qed

lemma new_rows_cell:
  assumes wf: "wf_board b" and m: "m \<le> height b"
      and rc: "0 \<le> r" "r < height b" "0 \<le> c" "c < width b"
  shows "sameShape b (fold (\<lambda>row bd.
                      let rowString = R row in
                      if includesChar rowString (CHR '','') then parseRowCells bd row rowString (width b)
                      else parseRowBigint bd row rowString (width b)) [0 .. m - 1] b) \<and>
         getStone (fold (\<lambda>row bd.
                      let rowString = R row in
                      if includesChar rowString (CHR '','') then parseRowCells bd row rowString (width b)
                      else parseRowBigint bd row rowString (width b)) [0 .. m - 1] b) r c =
           (if r < m then
              (if includesChar (R r) (CHR '','') then
                 (if c < int (length (splitOn (CHR '','') (R r)))
                  then symbolStone (trim (splitOn (CHR '','') (R r) ! nat c)) else getStone b r c)
               else pairStone (rowPair (parseInt (R r)) (width b) c))
            else getStone b r c)"
proof -
  let ?upd = "\<lambda>row bd.
                      let rowString = R row in
                      if includesChar rowString (CHR '','') then parseRowCells bd row rowString (width b)
                      else parseRowBigint bd row rowString (width b)"
  let ?g = "\<lambda>old :: Stone.
              (if includesChar (R r) (CHR '','') then
                 (if c < int (length (splitOn (CHR '','') (R r)))
                  then symbolStone (trim (splitOn (CHR '','') (R r) ! nat c)) else old)
               else pairStone (rowPair (parseInt (R r)) (width b) c))"
  have step: "sameShape b (?upd i bd) \<and>
              getStone (?upd i bd) r c = (if i = r then ?g (getStone bd r c) else getStone bd r c)"
    if "sameShape b bd" "0 \<le> i" "i < m" for i bd
  proof -
    have ih: "i < height b" using that(3) m by simp
    show ?thesis
    proof (cases "includesChar (R i) (CHR '','')")
      case True
      from parseRowCells_cell[OF that(1,2) ih, of "R i" r c] show ?thesis
        using rc True by (auto simp: Let_def)
    next
      case False
      from parseRowValue_cell[OF that(1,2) ih, of "parseInt (R i)" r c] show ?thesis
        using rc False by (auto simp: Let_def parseRowBigint_def)
    qed
  qed
  have inv: "sameShape b (?upd i bd)" if "sameShape b bd" "0 \<le> i" "i < m" for i bd
    using step[OF that] by blast
  have rd: "getStone (?upd i bd) r c = (if i = r then ?g (getStone bd r c) else getStone bd r c)"
    if "sameShape b bd" "0 \<le> i" "i < m" for i bd
    using step[OF that] by blast
  from fold_upto_read_int[where P = "sameShape b" and upd = ?upd and rd = "\<lambda>bd. getStone bd r c"
      and key = r and g = ?g and m = m and b = b, OF inv rd sameShape_refl[OF wf]]
  show ?thesis using rc by simp
qed

lemma splitOn_nonempty: "splitOn c s \<noteq> []"
  by (induction s) (auto split: list.splits)

lemma splitOn_length: "length (splitOn c s) \<le> length s + 1"
  by (induction s) (auto split: list.splits)

lemma splitOn_piece_length: "p \<in> set (splitOn c s) \<Longrightarrow> length p \<le> length s"
proof (induction s arbitrary: p)
  case Nil
  then show ?case by simp
next
  case (Cons x xs)
  show ?case
  proof (cases "x = c")
    case True
    then show ?thesis using Cons by (auto simp: le_Suc_eq)
  next
    case False
    obtain y ys where sp: "splitOn c xs = y # ys"
      using splitOn_nonempty[of c xs] by (cases "splitOn c xs") auto
    have "length y \<le> length xs" using Cons.IH[of y] sp by simp
    moreover have "\<And>q. q \<in> set ys \<Longrightarrow> length q \<le> length xs" using Cons.IH sp by simp
    ultimately show ?thesis using Cons.prems False sp by (auto simp: le_Suc_eq)
  qed
qed

lemma trim_length: "length (trim s) \<le> length s"
proof -
  have "length (dropWhile P xs) \<le> length xs" for P and xs :: string
    by (induction xs) auto
  then have "length (dropWhile isWhiteSpace (rev (dropWhile isWhiteSpace s)))
             \<le> length (dropWhile isWhiteSpace s)" "length (dropWhile isWhiteSpace s) \<le> length s"
    by (metis length_rev)+
  then show ?thesis by (simp add: trim_def)
qed

lemma parseLegacyFormat_outcome:
  assumes nosemi: "\<not> includesChar boardData (CHR '';'')"
  shows "parseLegacyFormat boardData sz =
           (case newBoard (fst (sizeUsed boardData sz)) (snd (sizeUsed boardData sz)) of
              Thrown e \<Rightarrow> Thrown e
            | Rowless \<Rightarrow> Rowless
            | Built b \<Rightarrow>
                Built (fold (\<lambda>row bd. parseRowValue bd row
                               (toStringParseInt (parseInt (trim (splitOn (CHR '','') boardData ! nat row)))) (width b))
                         [0 .. min (int (length (splitOn (CHR '','') boardData))) (height b) - 1] b))"
proof -
  let ?rows = "map (\<lambda>s. parseInt (trim s)) (splitOn (CHR '','') boardData)"
  have bs: "(case sz of
               None \<Rightarrow> (Some (int (length ?rows)), Some (int (length ?rows)))
             | Some s \<Rightarrow> if s = [] then (Some (int (length ?rows)), Some (int (length ?rows)))
                         else parseSize s) = sizeUsed boardData sz"
    using nosemi by (auto simp: sizeUsed_def sizeGiven_def split: option.splits)
  have f: "fold (\<lambda>row bd. parseRowValue bd row (toStringParseInt (?rows ! nat row)) w) [0 .. m - 1] b =
           fold (\<lambda>row bd. parseRowValue bd row
                   (toStringParseInt (parseInt (trim (splitOn (CHR '','') boardData ! nat row)))) w) [0 .. m - 1] b"
    if "m \<le> int (length (splitOn (CHR '','') boardData))" for w m b
    by (rule fold_cong) (use that in \<open>auto simp: nth_map\<close>)
  show ?thesis
    unfolding parseLegacyFormat_def Let_def bs
    by (cases "newBoard (fst (sizeUsed boardData sz)) (snd (sizeUsed boardData sz))")
       (simp_all add: f)
qed

lemma parseNewFormat_outcome:
  assumes semi: "includesChar boardData (CHR '';'')"
  shows "parseNewFormat boardData sz =
           (case newBoard (fst (sizeUsed boardData sz)) (snd (sizeUsed boardData sz)) of
              Thrown e \<Rightarrow> Thrown e
            | Rowless \<Rightarrow> Rowless
            | Built b \<Rightarrow>
                Built (fold (\<lambda>row bd.
                         let rowString = trim (splitOn (CHR '';'') boardData ! nat row) in
                         if includesChar rowString (CHR '','') then parseRowCells bd row rowString (width b)
                         else parseRowBigint bd row rowString (width b))
                         [0 .. min (int (length (splitOn (CHR '';'') boardData))) (height b) - 1] b))"
proof -
  let ?sp = "splitOn (CHR '';'') boardData"
  let ?rs = "map trim ?sp"
  have ne: "?sp \<noteq> []" by (rule splitOn_nonempty)
  then have first: "?rs ! 0 = trim (?sp ! 0)" by (simp add: nth_map)
  have bs: "(case sz of
               None \<Rightarrow>
                 (let firstRow = ?rs ! 0 in
                  if includesChar firstRow (CHR '','')
                  then (Some (int (length (splitOn (CHR '','') firstRow))), Some (int (length ?rs)))
                  else (Some (int (length ?rs)), Some (int (length ?rs))))
             | Some s \<Rightarrow>
                 if s = [] then
                   (let firstRow = ?rs ! 0 in
                    if includesChar firstRow (CHR '','')
                    then (Some (int (length (splitOn (CHR '','') firstRow))), Some (int (length ?rs)))
                    else (Some (int (length ?rs)), Some (int (length ?rs))))
                 else parseSize s) = sizeUsed boardData sz"
    using semi by (auto simp: sizeUsed_def sizeGiven_def Let_def first split: option.splits)
  have f: "fold (\<lambda>row bd.
                    let rowString = ?rs ! nat row in
                    if includesChar rowString (CHR '','') then parseRowCells bd row rowString w
                    else parseRowBigint bd row rowString w) [0 .. m - 1] b =
           fold (\<lambda>row bd.
                    let rowString = trim (?sp ! nat row) in
                    if includesChar rowString (CHR '','') then parseRowCells bd row rowString w
                    else parseRowBigint bd row rowString w) [0 .. m - 1] b"
    if "m \<le> int (length ?sp)" for w m b
    by (rule fold_cong) (use that in \<open>auto simp: nth_map\<close>)
  show ?thesis
    unfolding parseNewFormat_def Let_def bs[unfolded Let_def]
    by (cases "newBoard (fst (sizeUsed boardData sz)) (snd (sizeUsed boardData sz))")
       (simp_all add: f[unfolded Let_def])
qed

lemma sizeUsed_inferred:
  assumes len: "length boardData < 2 ^ 30" and ng: "\<not> sizeGiven sz"
  shows "\<exists>n m. sizeUsed boardData sz = (Some (int n), Some (int m)) \<and> n < 2 ^ 32 \<and> m < 2 ^ 32"
proof (cases "includesChar boardData (CHR '';'')")
  case False
  let ?n = "length (splitOn (CHR '','') boardData)"
  have "?n \<le> length boardData + 1" by (rule splitOn_length)
  then have "?n < 2 ^ 32" using len by simp
  moreover have "sizeUsed boardData sz = (Some (int ?n), Some (int ?n))"
    using False ng by (simp add: sizeUsed_def)
  ultimately show ?thesis by blast
next
  case True
  let ?sp = "splitOn (CHR '';'') boardData"
  let ?first = "trim (?sp ! 0)"
  have "length ?sp \<le> length boardData + 1" by (rule splitOn_length)
  then have l: "length ?sp < 2 ^ 32" using len by simp
  have "?sp \<noteq> []" by (rule splitOn_nonempty)
  then have "?sp ! 0 \<in> set ?sp" by (simp add: nth_mem)
  then have "length (?sp ! 0) \<le> length boardData" by (rule splitOn_piece_length)
  then have "length ?first \<le> length boardData" using trim_length[of "?sp ! 0"] by simp
  then have "length (splitOn (CHR '','') ?first) \<le> length boardData + 1"
    using splitOn_length[of "CHR '',''" ?first] by simp
  then have lw: "length (splitOn (CHR '','') ?first) < 2 ^ 32" using len by simp
  show ?thesis
  proof (cases "includesChar ?first (CHR '','')")
    case c: True
    have "sizeUsed boardData sz = (Some (int (length (splitOn (CHR '','') ?first))), Some (int (length ?sp)))"
      using True ng c by (simp add: sizeUsed_def Let_def)
    then show ?thesis using l lw by blast
  next
    case c: False
    have "sizeUsed boardData sz = (Some (int (length ?sp)), Some (int (length ?sp)))"
      using True ng c by (simp add: sizeUsed_def Let_def)
    then show ?thesis using l by blast
  qed
qed

lemma parseBoard_outcome:
  "parseBoard boardData sz =
     (if \<not> allocatable (fst (sizeUsed boardData sz)) (snd (sizeUsed boardData sz)) then Thrown RangeError
      else case fst (sizeUsed boardData sz) of
             None \<Rightarrow> Rowless
           | Some k \<Rightarrow>
               Built (if includesChar boardData (CHR '';'') then
                        fold (\<lambda>row bd.
                           let rowString = trim (splitOn (CHR '';'') boardData ! nat row) in
                           if includesChar rowString (CHR '','') then parseRowCells bd row rowString k
                           else parseRowBigint bd row rowString k)
                          [0 .. min (int (length (splitOn (CHR '';'') boardData))) (the (snd (sizeUsed boardData sz))) - 1]
                          (emptyBoard k (the (snd (sizeUsed boardData sz))))
                      else
                        fold (\<lambda>row bd. parseRowValue bd row
                               (toStringParseInt (parseInt (trim (splitOn (CHR '','') boardData ! nat row)))) k)
                          [0 .. min (int (length (splitOn (CHR '','') boardData))) (the (snd (sizeUsed boardData sz))) - 1]
                          (emptyBoard k (the (snd (sizeUsed boardData sz))))))"
proof (cases "includesChar boardData (CHR '';'')")
  case True
  show ?thesis
    unfolding parseBoard_def using True
    by (simp add: parseNewFormat_outcome newBoard_outcome emptyBoard_dims Let_def split: option.splits cong: if_cong)
next
  case False
  show ?thesis
    unfolding parseBoard_def using False
    by (simp add: parseLegacyFormat_outcome newBoard_outcome emptyBoard_dims split: option.splits)
qed

text \<open>
  On a board up to 16 wide the pair the code extracts is the bit pair of the column.
\<close>

lemma rowPair_valuePair:
  assumes "0 \<le> c" "c < wd" "wd \<le> 16"
  shows "rowPair (Some v) wd c = valuePair v wd c"
proof -
  define k where "k = nat (wd - 1 - c)"
  have k: "k \<le> 15" using assms by (simp add: k_def)
  have sh: "nat (((wd - 1 - c) * 2) mod 32) = 2 * k" using assms by (simp add: k_def)
  define q where "q = (v + 2 ^ 31) div 2 ^ 32"
  define y where "y = - (4 ^ (15 - k) * q)"
  define x where "x = 4 * y"
  have t: "toInt32 (Some v) = v - 2 ^ 32 * q"
    unfolding toInt32_def q_def option.case
    using minus_div_mult_eq_mod[of "v + 2 ^ 31" "2 ^ 32", symmetric] by simp
  have "(4::int) ^ k * (4 * 4 ^ (15 - k)) = 4 ^ (k + Suc (15 - k))" by (simp add: power_add)
  also have "k + Suc (15 - k) = 16" using k by simp
  finally have "(2::int) ^ 32 = 4 ^ k * (4 * 4 ^ (15 - k))" by simp
  then have "2 ^ 32 * q = 4 ^ k * (4 * 4 ^ (15 - k)) * q" by simp
  then have t': "toInt32 (Some v) = v + 4 ^ k * x"
    using t by (simp add: x_def y_def)
  have p: "(2::int) ^ (2 * k) = 4 ^ k" by (simp add: power_mult)
  have "(v + 4 ^ k * x) div 4 ^ k = x + v div 4 ^ k" by (rule div_mult_self2) simp
  then have "(toInt32 (Some v) div 4 ^ k) mod 4 = (v div 4 ^ k + 4 * y) mod 4"
    by (simp only: t' x_def add.commute)
  also have "\<dots> = (v div 4 ^ k) mod 4" by (rule mod_mult_self2)
  finally have "(toInt32 (Some v) div 4 ^ k) mod 4 = (v div 4 ^ k) mod 4" .
  then show ?thesis unfolding rowPair_def valuePair_def sh p k_def[symmetric] .
qed

lemma rowPair_None: "pairStone (rowPair None wd c) = NONE"
  by (simp add: rowPair_def toInt32_def pairStone_def)

lemma pairStone_rowPair_valueStone:
  assumes "0 \<le> c" "c < wd" "v = None \<or> wd \<le> 16"
  shows "pairStone (rowPair v wd c) = valueStone v wd c"
proof (cases v)
  case None
  then show ?thesis by (simp add: rowPair_None valueStone_def)
next
  case (Some k)
  then show ?thesis using assms rowPair_valuePair[of c wd k] by (simp add: valueStone_def)
qed

lemma toStringParseInt_plain:
  "(case v of None \<Rightarrow> True | Some k \<Rightarrow> \<bar>k\<bar> < 10 ^ 21) \<Longrightarrow> toStringParseInt v = v"
  by (cases v) (simp_all add: toStringParseInt_def Let_def)

text \<open>
  Claim C6 (as amended). Parsing a board string (shorter than \<open>2 ^ 30\<close> characters, as
  every string of the runtime is) is rejected exactly when a size parameter is given and
  its size cannot be allocated, and then with a RangeError. Every other input is
  accepted, whatever the board string holds. The result is the board without rows when
  the size has height 0 and a width that is no number. Otherwise it is a well-formed
  board of the size used, given or inferred, and its cells are what \<open>cellRead\<close> makes of
  the string: an invalid cell symbol and the reserved bit pair are read as empty, a row
  value that is no number as an empty row, missing rows and cells stay empty, and rows
  and cells beyond the size are ignored. The cells are stated for the rows of
  \<open>rowInRange\<close>.
\<close>

theorem parseBoard_accepts_and_coerces:
  assumes "length boardData < 2 ^ 30"
  shows "((\<exists>e. parseBoard boardData sz = Thrown e) \<longleftrightarrow>
            sizeGiven sz \<and> \<not> allocatable (fst (sizeUsed boardData sz)) (snd (sizeUsed boardData sz)))
       \<and> (\<forall>e. parseBoard boardData sz = Thrown e \<longrightarrow> e = RangeError)
       \<and> (parseBoard boardData sz = Rowless \<longleftrightarrow> sizeUsed boardData sz = (None, Some 0))
       \<and> (\<forall>b. parseBoard boardData sz = Built b \<longrightarrow>
             wf_board b \<and> sizeUsed boardData sz = (Some (width b), Some (height b))
             \<and> (\<forall>r c. isValidPosition b r c \<and> rowInRange boardData (width b) r \<longrightarrow>
                    getStone b r c = cellRead boardData (width b) r c))"
proof -
  let ?w = "fst (sizeUsed boardData sz)" and ?h = "snd (sizeUsed boardData sz)"
  have inferred: "allocatable ?w ?h" if "\<not> sizeGiven sz"
  proof -
    from sizeUsed_inferred[OF assms that] obtain n m where
      "sizeUsed boardData sz = (Some (int n), Some (int m))" "n < 2 ^ 32" "m < 2 ^ 32" by blast
    then show ?thesis using allocatable_lengths[of n m] by simp
  qed
  show ?thesis
  proof (cases "allocatable ?w ?h")
    case False
    then have "parseBoard boardData sz = Thrown RangeError" by (simp add: parseBoard_outcome)
    moreover have "sizeGiven sz" using False inferred by blast
    moreover have "sizeUsed boardData sz \<noteq> (None, Some 0)"
      using False by (auto simp: allocatable_def)
    ultimately show ?thesis using False by simp
  next
    case True
    then obtain n where h: "?h = Some n" and n: "0 \<le> n"
      by (auto simp: allocatable_def split: option.splits)
    show ?thesis
    proof (cases ?w)
      case None
      then have "parseBoard boardData sz = Rowless" using True by (simp add: parseBoard_outcome)
      moreover have "n = 0" using True None h by (simp add: allocatable_def)
      then have "sizeUsed boardData sz = (None, Some 0)" using None h by (simp add: prod_eq_iff)
      ultimately show ?thesis using True by simp
    next
      case (Some k)
      let ?b0 = "emptyBoard k n"
      have wf0: "wf_board ?b0" by (rule wf_emptyBoard)
      have su: "sizeUsed boardData sz = (Some k, Some n)" using Some h by (simp add: prod_eq_iff)
      have final: ?thesis
        if res: "parseBoard boardData sz = Built b" and shape: "sameShape ?b0 b"
          and cell: "\<And>r c. 0 \<le> r \<Longrightarrow> r < n \<Longrightarrow> 0 \<le> c \<Longrightarrow> c < k \<Longrightarrow>
                       rowInRange boardData k r \<Longrightarrow> getStone b r c = cellRead boardData k r c" for b
      proof -
        have dims: "width b = k" "height b = n" "wf_board b"
          using shape by (simp_all add: sameShape_def emptyBoard_dims)
        have "\<forall>r c. isValidPosition b r c \<and> rowInRange boardData (width b) r \<longrightarrow>
                 getStone b r c = cellRead boardData (width b) r c"
          using cell dims by (simp add: isValidPosition_def)
        then show ?thesis using res dims su True by simp
      qed
      show ?thesis
      proof (cases "includesChar boardData (CHR '';'')")
        case False
        let ?sp = "splitOn (CHR '','') boardData"
        let ?V = "\<lambda>row. toStringParseInt (parseInt (trim (?sp ! nat row)))"
        let ?m = "min (int (length ?sp)) n"
        let ?res = "fold (\<lambda>row bd. parseRowValue bd row (?V row) k) [0 .. ?m - 1] ?b0"
        have res: "parseBoard boardData sz = Built ?res"
          using True Some h False by (simp add: parseBoard_outcome)
        have shape: "sameShape ?b0 ?res"
          by (rule sameShape_fold[OF sameShape_refl[OF wf0]]) (rule sameShape_parseRowValue)
        have cell: "getStone ?res r c = cellRead boardData k r c"
          if "0 \<le> r" "r < n" "0 \<le> c" "c < k" "rowInRange boardData k r" for r c
        proof -
          have g: "getStone ?res r c = (if r < ?m then pairStone (rowPair (?V r) k c) else NONE)"
            using legacy_rows_cell[of ?b0 ?m r c ?V] wf0 that(1-4)
            by (simp add: emptyBoard_dims getStone_emptyBoard)
          show ?thesis
          proof (cases "r < int (length ?sp)")
            case out: False
            then show ?thesis using g False by (simp add: cellRead_def Let_def)
          next
            case inside: True
            let ?v = "parseInt (trim (?sp ! nat r))"
            have rng: "case ?v of None \<Rightarrow> True | Some v \<Rightarrow> k \<le> 16 \<and> \<bar>v\<bar> < 10 ^ 21"
              using that(5) False inside by (simp add: rowInRange_def Let_def)
            then have "case ?v of None \<Rightarrow> True | Some v \<Rightarrow> \<bar>v\<bar> < 10 ^ 21"
              by (simp split: option.splits)
            then have ts: "?V r = ?v" by (rule toStringParseInt_plain)
            have "?v = None \<or> k \<le> 16" using rng by (simp split: option.splits)
            then have "pairStone (rowPair ?v k c) = valueStone ?v k c"
              using that(3,4) by (intro pairStone_rowPair_valueStone) simp_all
            then show ?thesis using g that(2) inside False by (simp add: cellRead_def Let_def ts)
          qed
        qed
        show ?thesis by (rule final[OF res shape cell])
      next
        case semi: True
        let ?sp = "splitOn (CHR '';'') boardData"
        let ?R = "\<lambda>row. trim (?sp ! nat row)"
        let ?m = "min (int (length ?sp)) n"
        let ?upd = "\<lambda>row bd.
                           let rowString = ?R row in
                           if includesChar rowString (CHR '','') then parseRowCells bd row rowString k
                           else parseRowBigint bd row rowString k"
        let ?res = "fold ?upd [0 .. ?m - 1] ?b0"
        have res: "parseBoard boardData sz = Built ?res"
          using True Some h semi by (simp add: parseBoard_outcome)
        have shape: "sameShape ?b0 ?res"
          by (rule sameShape_fold[OF sameShape_refl[OF wf0]])
             (simp add: Let_def sameShape_parseRowCells sameShape_parseRowBigint)
        have cell: "getStone ?res r c = cellRead boardData k r c"
          if "0 \<le> r" "r < n" "0 \<le> c" "c < k" "rowInRange boardData k r" for r c
        proof -
          have g: "getStone ?res r c =
                  (if r < ?m then
                     (if includesChar (?R r) (CHR '','') then
                        (if c < int (length (splitOn (CHR '','') (?R r)))
                         then symbolStone (trim (splitOn (CHR '','') (?R r) ! nat c)) else NONE)
                      else pairStone (rowPair (parseInt (?R r)) k c))
                   else NONE)"
            using new_rows_cell[of ?b0 ?m r c ?R, unfolded emptyBoard_dims getStone_emptyBoard] wf0 that(1-4)
            by simp
          show ?thesis
          proof (cases "r < int (length ?sp) \<and> \<not> includesChar (?R r) (CHR '','')")
            case False
            then show ?thesis using g that(2) semi by (auto simp: cellRead_def Let_def)
          next
            case True
            let ?v = "parseInt (?R r)"
            have "?v = None \<or> k \<le> 16"
              using that(5) semi True by (auto simp: rowInRange_def Let_def)
            then have "pairStone (rowPair ?v k c) = valueStone ?v k c"
              using that(3,4) by (intro pairStone_rowPair_valueStone) simp_all
            then show ?thesis using g that(2) semi True by (simp add: cellRead_def Let_def)
          qed
        qed
        show ?thesis by (rule final[OF res shape cell])
      qed
    qed
  qed
qed

text \<open>
  Claim C6 as stated fails: non-numeric row values are read as empty rows, an invalid
  cell symbol as an empty cell, rows beyond the declared height are dropped, the reserved
  bit pair is read as an empty cell, and the size 0 gives a board without cells; none of
  them is rejected.
\<close>

theorem parseBoard_malformed_counterexample:
  "parseBoard ''invalid,data,here'' None = Built (emptyBoard 3 3)
   \<and> parseBoard ''B,X;.,W'' None = Built \<lparr>stones = [[BLACK, NONE], [NONE, WHITE]], width = 2, height = 2\<rparr>
   \<and> parseBoard ''1,2,3'' (Some ''2'') = Built \<lparr>stones = [[NONE, BLACK], [NONE, WHITE]], width = 2, height = 2\<rparr>
   \<and> parseBoard ''7'' (Some ''2x1'') = Built \<lparr>stones = [[BLACK, NONE]], width = 2, height = 1\<rparr>
   \<and> parseBoard ''0'' (Some ''0'') = Built (emptyBoard 0 0)"
  by code_simp

theorem parseBoard_accepts_and_coerces_witness:
  "sizeGiven (Some ''invalid'')
   \<and> \<not> allocatable (fst (sizeUsed ''0,0,0'' (Some ''invalid''))) (snd (sizeUsed ''0,0,0'' (Some ''invalid'')))
   \<and> wf_board \<lparr>stones = [[BLACK, NONE], [NONE, WHITE]], width = 2, height = 2\<rparr>
   \<and> sizeUsed ''B,X;.,W'' None = (Some 2, Some 2)
   \<and> cellRead ''B,X;.,W'' 2 0 1 = NONE
   \<and> cellRead ''B,X;.,W'' 2 1 1 = WHITE
   \<and> cellRead ''7'' 2 0 0 = BLACK
   \<and> cellRead ''7'' 2 0 1 = NONE"
proof -
  let ?b = "\<lparr>stones = [[BLACK, NONE], [NONE, WHITE]], width = 2, height = 2\<rparr>"
  let ?c = "\<lparr>stones = [[BLACK, NONE]], width = 2, height = 1\<rparr>"
  have l1: "length ''0,0,0'' < 2 ^ 30" and l2: "length ''B,X;.,W'' < 2 ^ 30"
    and l3: "length ''7'' < 2 ^ 30" by simp_all
  have e: "parseBoard ''0,0,0'' (Some ''invalid'') = Thrown RangeError" by code_simp
  then have ex: "\<exists>e. parseBoard ''0,0,0'' (Some ''invalid'') = Thrown e" by blast
  have p: "parseBoard ''B,X;.,W'' None = Built ?b" by code_simp
  have q: "parseBoard ''7'' (Some ''2x1'') = Built ?c" by code_simp
  have w: "width ?b = 2" "height ?b = 2" "width ?c = 2" "height ?c = 1" by simp_all
  have r0: "rowInRange ''B,X;.,W'' 2 0" and r1: "rowInRange ''B,X;.,W'' 2 1"
    and r7: "rowInRange ''7'' 2 0" by code_simp+
  have v01: "isValidPosition ?b 0 1 \<and> rowInRange ''B,X;.,W'' (width ?b) 0"
    and v11: "isValidPosition ?b 1 1 \<and> rowInRange ''B,X;.,W'' (width ?b) 1"
    and c00: "isValidPosition ?c 0 0 \<and> rowInRange ''7'' (width ?c) 0"
    and c01: "isValidPosition ?c 0 1 \<and> rowInRange ''7'' (width ?c) 0"
    using r0 r1 r7 by (simp_all add: isValidPosition_def)
  have g: "getStone ?b 0 1 = NONE" "getStone ?b 1 1 = WHITE"
    "getStone ?c 0 0 = BLACK" "getStone ?c 0 1 = NONE"
    by (simp_all add: getStone_def)
  note A = parseBoard_accepts_and_coerces[OF l1, of "Some ''invalid''", THEN conjunct1, THEN iffD1, OF ex]
  note B = parseBoard_accepts_and_coerces[OF l2, of None, THEN conjunct2, THEN conjunct2, THEN conjunct2,
              THEN spec, THEN mp, OF p]
  note C = parseBoard_accepts_and_coerces[OF l3, of "Some ''2x1''", THEN conjunct2, THEN conjunct2, THEN conjunct2,
              THEN spec, THEN mp, OF q]
  note B1 = B[THEN conjunct2, THEN conjunct2, THEN spec, THEN spec, THEN mp, OF v01]
  note B2 = B[THEN conjunct2, THEN conjunct2, THEN spec, THEN spec, THEN mp, OF v11]
  note C1 = C[THEN conjunct2, THEN conjunct2, THEN spec, THEN spec, THEN mp, OF c00]
  note C2 = C[THEN conjunct2, THEN conjunct2, THEN spec, THEN spec, THEN mp, OF c01]
  show ?thesis
    using A B[THEN conjunct1] B[THEN conjunct2, THEN conjunct1] B1 B2 C1 C2
    by (simp only: w g simp_thms)
qed

section \<open>Encoding a decoded board\<close>

lemma parseLegacyFormat_eval:
  assumes "map (\<lambda>s. parseInt (trim s)) (splitOn (CHR '','') boardData) = rows"
    and "s \<noteq> []" and "parseSize s = (w, h)" and "newBoard w h = Built b"
  shows "parseLegacyFormat boardData (Some s) =
           Built (fold (\<lambda>row bd. parseRowValue bd row (toStringParseInt (rows ! nat row)) (width b))
                    [0 .. min (int (length rows)) (height b) - 1] b)"
  by (simp add: parseLegacyFormat_def Let_def assms)

text \<open>
  Claim C4 fails on wide boards. On a board 19 wide a black stone in column 0 is the row
  value \<open>4 ^ 18 = 68719476736\<close>, which has no \<open>11\<close> pair. The 32-bit shift of
  \<open>parseRowBigint\<close> finds 0 in every column: the stone is lost, and \<open>encodeBoard\<close> gives 0.
\<close>

theorem encodeBoard_wide_row:
  "map (\<lambda>s. parseInt (trim s)) (splitOn (CHR '','') ''68719476736'') = [Some (4 ^ 18)]
   \<and> parseBoard ''68719476736'' (Some ''19x1'') = Built (emptyBoard 19 1)
   \<and> encodeBoard (emptyBoard 19 1) = [0]"
proof -
  have sp: "splitOn (CHR '','') ''68719476736'' = [''68719476736'']" by code_simp
  have tr: "trim ''68719476736'' = ''68719476736''" by code_simp
  have pi: "parseInt ''68719476736'' = Some 68719476736" by code_simp
  have rows: "map (\<lambda>s. parseInt (trim s)) (splitOn (CHR '','') ''68719476736'') = [Some 68719476736]"
    by (simp add: sp tr pi)
  have ts: "toStringParseInt (Some 68719476736) = Some 68719476736" by code_simp
  have ps: "parseSize ''19x1'' = (Some 19, Some 1)" by code_simp
  have nb: "newBoard (Some 19) (Some 1) = Built (emptyBoard 19 1)" by code_simp
  have inc: "\<not> includesChar ''68719476736'' (CHR '';'')" by code_simp
  have dims: "width (emptyBoard 19 1) = 19" "height (emptyBoard 19 1) = 1"
    by (simp_all add: emptyBoard_def)
  have row: "parseRowValue (emptyBoard 19 1) 0 (Some 68719476736) 19 = emptyBoard 19 1"
    by code_simp
  have up: "[0 .. (0::int)] = [0]" by (simp add: upto.simps)
  have pb: "parseBoard ''68719476736'' (Some ''19x1'') = Built (emptyBoard 19 1)"
    unfolding parseBoard_def using inc
    by (simp add: parseLegacyFormat_eval[OF rows _ ps nb] dims up ts row)
  have en: "encodeBoard (emptyBoard 19 1) = [0]" by code_simp
  show ?thesis using rows pb en by simp
qed

end
